theory Spec2Isabelle
  imports Main "HOL-Library.Word"
begin

unbundle bit_operations_syntax

section \<open>Machine types, faults and diagnostics\<close>

text \<open>
  The embedding follows \<^verbatim>\<open>bmp.h\<close> on a platform where \<^verbatim>\<open>int\<close> has 32 bits,
  \<^verbatim>\<open>size_t\<close> has 64 bits and memory is little-endian. Unsigned integers are words
  (arithmetic wraps). Header fields of type \<^verbatim>\<open>int32_t\<close> are words read through \<open>sint\<close>;
  local \<^verbatim>\<open>int\<close> variables are mathematical integers, and every \<^verbatim>\<open>int\<close> operation whose
  result may leave the 32-bit range is checked by \<open>int32\<close>: there the C++ behaviour is
  undefined, which the model reports as a fault. Memory allocation is assumed to succeed.
\<close>

type_synonym u8 = "8 word"
type_synonym u16 = "16 word"
type_synonym u32 = "32 word"
type_synonym i32 = "32 word"

text \<open>
  What the C++ program leaves undefined or aborts on: an index outside a \<^verbatim>\<open>std::vector\<close>,
  signed overflow, a \<^verbatim>\<open>resize\<close> to a negative size (\<^verbatim>\<open>std::length_error\<close>), a \<^verbatim>\<open>float\<close>
  that does not fit the \<^verbatim>\<open>uint8_t\<close> it is converted to, a remainder by zero.
\<close>

datatype fault = OutOfBounds | SignedOverflow | LengthError | FloatConversion | DivisionByZero

text \<open>
  The messages the program prints on \<^verbatim>\<open>std::cerr\<close>, one constructor per message:
  \<^item> \<open>DimsNotPositive\<close>: "The image width and height must be positive numbers."
  \<^item> \<open>UnrecognizedFormat\<close>: "Error! Unrecognized file format."
  \<^item> \<open>NoBitMask\<close>: "Error! The file ... does not seem to contain bit mask information"
  \<^item> \<open>TopDownOrigin\<close>: "The program can treat only BMP images with the origin in the bottom left corner!"
  \<^item> \<open>UnableToOpenInput\<close>: "Unable to open the input image file."
  \<^item> \<open>Only24or32\<close>: "The program can treat only 24 or 32 bits per pixel BMP files"
  \<^item> \<open>UnableToOpenOutput\<close>: "Unable to open the output image file."
  \<^item> \<open>PixelOutside\<close>: "setPixel error: Pixel is outside!"
  \<^item> \<open>InvalidGreyScale\<close>: "BlackWhite error: Invalid grey scale"
  \<^item> \<open>UnexpectedColorMask\<close>: "Unexpected color mask format! ..."
  \<^item> \<open>UnexpectedColorSpace\<close>: "Unexpected color space type! ..."
  \<^item> \<open>EraseOnly32\<close>: "erasePixel error: only for 32 bits/pixel"
\<close>

datatype diag =
    DimsNotPositive | UnrecognizedFormat | NoBitMask | TopDownOrigin | UnableToOpenInput
  | Only24or32 | UnableToOpenOutput | PixelOutside | InvalidGreyScale
  | UnexpectedColorMask | UnexpectedColorSpace | EraseOnly32

definition bindF :: "fault + 'a \<Rightarrow> ('a \<Rightarrow> fault + 'b) \<Rightarrow> fault + 'b" where
  "bindF m f = (case m of Inl e \<Rightarrow> Inl e | Inr v \<Rightarrow> f v)"

text \<open>The result of an \<^verbatim>\<open>int\<close> operation: defined only inside the 32-bit range.\<close>

definition int32 :: "int \<Rightarrow> fault + int" where
  "int32 v = (if - (2 ^ 31) \<le> v \<and> v < 2 ^ 31 then Inr v else Inl SignedOverflow)"

text \<open>C++ \<^verbatim>\<open>/\<close> and \<^verbatim>\<open>%\<close> on \<^verbatim>\<open>int\<close> truncate towards zero (the divisors used are 8 and 4).\<close>

definition cdiv :: "int \<Rightarrow> int \<Rightarrow> int" where
  "cdiv a d = sgn a * sgn d * (\<bar>a\<bar> div \<bar>d\<bar>)"

definition crem :: "int \<Rightarrow> int \<Rightarrow> int" where
  "crem a d = a - d * cdiv a d"

text \<open>\<^verbatim>\<open>for (uint32_t i = i0; i < n; ++i) body\<close>, the body threading a state.\<close>

function for_u32 :: "u32 \<Rightarrow> u32 \<Rightarrow> (u32 \<Rightarrow> 's \<Rightarrow> fault + 's) \<Rightarrow> 's \<Rightarrow> fault + 's" where
  "for_u32 i n body s =
     (if i < n
      then (case body i s of Inl e \<Rightarrow> Inl e | Inr s' \<Rightarrow> for_u32 (i + 1) n body s')
      else Inr s)"
  by pat_completeness auto
termination
proof (relation "measure (\<lambda>(i, n, body, s). unat n - unat i)")
  show "wf (measure (\<lambda>(i, n, body, s). unat n - unat i))" by simp
next
  fix i n :: u32 and body :: "u32 \<Rightarrow> 's \<Rightarrow> fault + 's" and s x2 :: 's
  assume "i < n"
  then have "unat (i + 1) = Suc (unat i)" "unat i < unat n"
    by unat_arith+
  then show "((i + 1, n, body, x2), (i, n, body, s)) \<in> measure (\<lambda>(i, n, body, s). unat n - unat i)"
    by simp
qed

declare for_u32.simps [simp del]

text \<open>
  \<^verbatim>\<open>for (int i = i0; i < n; ++i) body\<close>: the counter stays below \<open>n\<close>, so its increment
  never overflows.
\<close>

function for_int :: "int \<Rightarrow> int \<Rightarrow> (int \<Rightarrow> 's \<Rightarrow> fault + 's) \<Rightarrow> 's \<Rightarrow> fault + 's" where
  "for_int i n body s =
     (if i < n
      then (case body i s of Inl e \<Rightarrow> Inl e | Inr s' \<Rightarrow> for_int (i + 1) n body s')
      else Inr s)"
  by pat_completeness auto
termination
  by (relation "measure (\<lambda>(i, n, body, s). nat (n - i))") auto

declare for_int.simps [simp del]

text \<open>Running a body over a list of values in order, stopping at the first fault.\<close>

primrec foldF :: "('a \<Rightarrow> 's \<Rightarrow> fault + 's) \<Rightarrow> 'a list \<Rightarrow> 's \<Rightarrow> fault + 's" where
  "foldF body [] s = Inr s"
| "foldF body (x # xs) s = (case body x s of Inl e \<Rightarrow> Inl e | Inr s' \<Rightarrow> foldF body xs s')"

section \<open>Data model\<close>

record BMPFileHeader =
  file_type :: u16
  file_size :: u32
  reserved1 :: u16
  reserved2 :: u16
  offset_data :: u32

record BMPInfoHeader =
  header_size :: u32
  width :: i32
  height :: i32
  planes :: u16
  bit_count :: u16
  compression :: u32
  size_image :: u32
  x_pixels_per_meter :: i32
  y_pixels_per_meter :: i32
  colors_used :: u32
  colors_important :: u32

record BMPColorHeader =
  red_mask :: u32
  green_mask :: u32
  blue_mask :: u32
  alpha_mask :: u32
  color_space_type :: u32
  unused :: "u32 list"

record Color =
  r :: u8
  g :: u8
  b :: u8
  alpha :: u8

record BMP =
  file_header :: BMPFileHeader
  bmp_info_header :: BMPInfoHeader
  bmp_color_header :: BMPColorHeader
  data :: "u8 list"
  channels :: u32
  row_stride :: u32

text \<open>The default member initialisers of the three header structs.\<close>

definition default_file_header :: BMPFileHeader where
  "default_file_header =
     \<lparr>file_type = 0x4D42, file_size = 0, reserved1 = 0, reserved2 = 0, offset_data = 0\<rparr>"

definition default_info_header :: BMPInfoHeader where
  "default_info_header =
     \<lparr>header_size = 0, width = 0, height = 0, planes = 1, bit_count = 0, compression = 0,
      size_image = 0, x_pixels_per_meter = 0, y_pixels_per_meter = 0, colors_used = 0,
      colors_important = 0\<rparr>"

definition default_color_header :: BMPColorHeader where
  "default_color_header =
     \<lparr>red_mask = 0x00ff0000, green_mask = 0x0000ff00, blue_mask = 0x000000ff,
      alpha_mask = 0xff000000, color_space_type = 0x73524742, unused = replicate 16 0\<rparr>"

text \<open>An image together with what has been printed on \<^verbatim>\<open>std::cerr\<close> so far.\<close>

type_synonym env = "BMP \<times> diag list"

text \<open>\<^verbatim>\<open>std::vector<uint8_t>::resize\<close>: new elements are zero.\<close>

definition resize :: "u8 list \<Rightarrow> nat \<Rightarrow> u8 list" where
  "resize d n = take n d @ replicate (n - length d) 0"

text \<open>
  \<^verbatim>\<open>make_stride_aligned\<close>: add 1 to the row stride until it is divisible by the alignment.
  The counter is a \<^verbatim>\<open>uint32_t\<close> and wraps to 0, where the loop stops at the latest.
\<close>

function stride_loop :: "u32 \<Rightarrow> u32 \<Rightarrow> u32" where
  "stride_loop new_stride align_stride =
     (if new_stride mod align_stride \<noteq> 0 then stride_loop (new_stride + 1) align_stride
      else new_stride)"
  by pat_completeness auto
termination
proof (relation "measure (\<lambda>(ns, a). unat (- ns))")
  show "wf (measure (\<lambda>(ns, a). unat (- ns)))" by simp
next
  fix ns a :: u32
  assume "ns mod a \<noteq> 0"
  then have "ns \<noteq> 0" by auto
  then have "- ns \<noteq> 0" by simp
  then have "unat (- ns - 1) = unat (- ns) - 1" "0 < unat (- ns)"
    by (simp_all add: unat_minus_one unat_gt_0)
  moreover have "- (ns + 1) = - ns - 1" by simp
  ultimately show "((ns + 1, a), (ns, a)) \<in> measure (\<lambda>(ns, a). unat (- ns))"
    by simp
qed

declare stride_loop.simps [simp del]

definition make_stride_aligned :: "u32 \<Rightarrow> u32 \<Rightarrow> fault + u32" where
  "make_stride_aligned row_stride_v align_stride =
     (if align_stride = 0 then Inl DivisionByZero
      else Inr (stride_loop row_stride_v align_stride))"

section \<open>Construction from dimensions\<close>

text \<open>
  \<^verbatim>\<open>BMP(int32_t width, int32_t height, bool has_alpha)\<close>. The test on the dimensions
  only prints; the constructor goes on. \<^verbatim>\<open>sizeof\<close> is 14 for the file header, 40 for the
  info header and 84 for the colour header (the structs are packed).
\<close>

definition BMP_new :: "i32 \<Rightarrow> i32 \<Rightarrow> bool \<Rightarrow> fault + env" where
  "BMP_new w h has_alpha =
     (let err = (if w \<le>s 0 \<or> h \<le>s 0 then [DimsNotPositive] else []);
          ih = default_info_header\<lparr>width := w, height := h\<rparr>
      in if has_alpha then
           let ih1 = ih\<lparr>header_size := 40 + 84, bit_count := 32, compression := 3\<rparr>;
               fh1 = default_file_header\<lparr>offset_data := 14 + 40 + 84\<rparr>
           in bindF (int32 (sint w * 4)) (\<lambda>rs_int.
              let rs = (word_of_int rs_int :: u32);
                  d = resize [] (unat (rs * h));
                  fh2 = fh1\<lparr>file_size := offset_data fh1 + word_of_nat (length d)\<rparr>
              in Inr (\<lparr>file_header = fh2, bmp_info_header = ih1,
                       bmp_color_header = default_color_header, data = d,
                       channels = ucast (bit_count ih1) div 8, row_stride = rs\<rparr>, err))
         else
           let ih1 = ih\<lparr>header_size := 40, bit_count := 24, compression := 0\<rparr>;
               fh1 = default_file_header\<lparr>offset_data := 14 + 40\<rparr>
           in bindF (int32 (sint w * 3)) (\<lambda>rs_int.
              let rs = (word_of_int rs_int :: u32);
                  d = resize [] (unat (rs * h))
              in bindF (make_stride_aligned rs 4) (\<lambda>new_stride.
                 let fh2 = fh1\<lparr>file_size :=
                             offset_data fh1 + word_of_nat (length d) + h * (new_stride - rs)\<rparr>
                 in Inr (\<lparr>file_header = fh2, bmp_info_header = ih1,
                          bmp_color_header = default_color_header, data = d,
                          channels = ucast (bit_count ih1) div 8, row_stride = rs\<rparr>, err))))"

section \<open>The codec\<close>

text \<open>
  The headers are packed structs that the program reads and writes as raw memory. On a
  little-endian machine a \<^verbatim>\<open>uint16_t\<close> is two bytes and a \<^verbatim>\<open>uint32_t\<close> or \<^verbatim>\<open>int32_t\<close> four
  bytes, least significant first.
\<close>

definition le16 :: "u16 \<Rightarrow> u8 list" where
  "le16 v = [ucast v, ucast (drop_bit 8 v)]"

definition le32 :: "u32 \<Rightarrow> u8 list" where
  "le32 v = [ucast v, ucast (drop_bit 8 v), ucast (drop_bit 16 v), ucast (drop_bit 24 v)]"

definition rd16 :: "u8 list \<Rightarrow> nat \<Rightarrow> u16" where
  "rd16 bs i = ucast (bs ! i) OR push_bit 8 (ucast (bs ! (i + 1)))"

definition rd32 :: "u8 list \<Rightarrow> nat \<Rightarrow> u32" where
  "rd32 bs i =
     ucast (bs ! i) OR push_bit 8 (ucast (bs ! (i + 1))) OR
     push_bit 16 (ucast (bs ! (i + 2))) OR push_bit 24 (ucast (bs ! (i + 3)))"

text \<open>The 14 bytes of a \<^verbatim>\<open>BMPFileHeader\<close> in memory, and the struct that 14 bytes hold.\<close>

definition file_header_bytes :: "BMPFileHeader \<Rightarrow> u8 list" where
  "file_header_bytes fh =
     le16 (file_type fh) @ le32 (file_size fh) @ le16 (reserved1 fh) @ le16 (reserved2 fh) @
     le32 (offset_data fh)"

definition file_header_of :: "u8 list \<Rightarrow> BMPFileHeader" where
  "file_header_of bs =
     \<lparr>file_type = rd16 bs 0, file_size = rd32 bs 2, reserved1 = rd16 bs 6,
      reserved2 = rd16 bs 8, offset_data = rd32 bs 10\<rparr>"

text \<open>The 40 bytes of a \<^verbatim>\<open>BMPInfoHeader\<close>.\<close>

definition info_header_bytes :: "BMPInfoHeader \<Rightarrow> u8 list" where
  "info_header_bytes ih =
     le32 (header_size ih) @ le32 (width ih) @ le32 (height ih) @ le16 (planes ih) @
     le16 (bit_count ih) @ le32 (compression ih) @ le32 (size_image ih) @
     le32 (x_pixels_per_meter ih) @ le32 (y_pixels_per_meter ih) @ le32 (colors_used ih) @
     le32 (colors_important ih)"

definition info_header_of :: "u8 list \<Rightarrow> BMPInfoHeader" where
  "info_header_of bs =
     \<lparr>header_size = rd32 bs 0, width = rd32 bs 4, height = rd32 bs 8, planes = rd16 bs 12,
      bit_count = rd16 bs 14, compression = rd32 bs 16, size_image = rd32 bs 20,
      x_pixels_per_meter = rd32 bs 24, y_pixels_per_meter = rd32 bs 28,
      colors_used = rd32 bs 32, colors_important = rd32 bs 36\<rparr>"

text \<open>The 84 bytes of a \<^verbatim>\<open>BMPColorHeader\<close>: five masks and the array \<^verbatim>\<open>unused[16]\<close>.\<close>

definition color_header_bytes :: "BMPColorHeader \<Rightarrow> u8 list" where
  "color_header_bytes ch =
     le32 (red_mask ch) @ le32 (green_mask ch) @ le32 (blue_mask ch) @ le32 (alpha_mask ch) @
     le32 (color_space_type ch) @ concat (map le32 (unused ch))"

definition color_header_of :: "u8 list \<Rightarrow> BMPColorHeader" where
  "color_header_of bs =
     \<lparr>red_mask = rd32 bs 0, green_mask = rd32 bs 4, blue_mask = rd32 bs 8,
      alpha_mask = rd32 bs 12, color_space_type = rd32 bs 16,
      unused = map (\<lambda>k. rd32 bs (20 + 4 * k)) [0..<16]\<rparr>"

text \<open>
  An input file stream: the bytes of the file, the read position and the state (\<open>good\<close>
  is false once a read has failed). \<^verbatim>\<open>read(buf, n)\<close> on a stream that is not good
  transfers nothing; otherwise it transfers the bytes available, up to \<open>n\<close>, and fails
  if they are fewer than \<open>n\<close>. \<^verbatim>\<open>seekg\<close> on a good stream sets the position, also beyond
  the end of the file.
\<close>

record ifstream =
  contents :: "u8 list"
  gpos :: nat
  good :: bool

definition stream_read :: "nat \<Rightarrow> ifstream \<Rightarrow> u8 list \<times> ifstream" where
  "stream_read n inp =
     (if good inp then
        let got = take n (drop (gpos inp) (contents inp))
        in (got, inp\<lparr>gpos := gpos inp + length got, good := (length got = n)\<rparr>)
      else ([], inp))"

definition seekg :: "nat \<Rightarrow> ifstream \<Rightarrow> ifstream" where
  "seekg off inp = (if good inp then inp\<lparr>gpos := off\<rparr> else inp)"

text \<open>The memory \<open>old\<close> after the bytes \<open>got\<close> have been stored from offset \<open>off\<close> on.\<close>

definition overlay :: "u8 list \<Rightarrow> nat \<Rightarrow> u8 list \<Rightarrow> u8 list" where
  "overlay old off got = take off old @ got @ drop (off + length got) old"

definition check_color_header :: "BMPColorHeader \<Rightarrow> diag list" where
  "check_color_header ch =
     (if red_mask default_color_header \<noteq> red_mask ch \<or>
         blue_mask default_color_header \<noteq> blue_mask ch \<or>
         green_mask default_color_header \<noteq> green_mask ch \<or>
         alpha_mask default_color_header \<noteq> alpha_mask ch
      then [UnexpectedColorMask] else []) @
     (if color_space_type default_color_header \<noteq> color_space_type ch
      then [UnexpectedColorSpace] else [])"

text \<open>
  One turn of the row loop of \<^verbatim>\<open>read\<close>: a row is read to \<^verbatim>\<open>data.data() + row_stride * y\<close>,
  then the padding is read and dropped.
\<close>

definition read_row :: "u32 \<Rightarrow> nat \<Rightarrow> int \<Rightarrow> u8 list \<times> ifstream \<Rightarrow> fault + u8 list \<times> ifstream" where
  "read_row rs pad y = (\<lambda>(d, inp).
     let (got, inp1) = stream_read (unat rs) inp;
         off = unat (rs * word_of_int y)
     in if off + length got \<le> length d
        then let (got_pad, inp2) = stream_read pad inp1 in Inr (overlay d off got, inp2)
        else Inl OutOfBounds)"

text \<open>
  \<^verbatim>\<open>read\<close>, on the bytes of the file (\<open>None\<close> when the file cannot be opened). None of its
  tests returns: each prints and the function goes on. A short read leaves the rest of
  the destination as it was.
\<close>

definition read :: "u8 list option \<Rightarrow> env \<Rightarrow> fault + env" where
  "read file = (\<lambda>(img, err).
     case file of
       None \<Rightarrow> Inr (img, err @ [UnableToOpenInput])
     | Some bytes \<Rightarrow>
        let inp0 = \<lparr>contents = bytes, gpos = 0, good = True\<rparr>;
            (got_fh, inp1) = stream_read 14 inp0;
            fh = file_header_of (overlay (file_header_bytes (file_header img)) 0 got_fh);
            err1 = (if file_type fh \<noteq> 0x4D42 then err @ [UnrecognizedFormat] else err);
            (got_ih, inp2) = stream_read 40 inp1;
            ih = info_header_of (overlay (info_header_bytes (bmp_info_header img)) 0 got_ih);
            (ch, inp3, err2) =
              (if bit_count ih = 32 then
                 if 40 + 84 \<le> header_size ih then
                   let (got_ch, inp) = stream_read 84 inp2;
                       ch = color_header_of
                              (overlay (color_header_bytes (bmp_color_header img)) 0 got_ch)
                   in (ch, inp, err1 @ check_color_header ch)
                 else (bmp_color_header img, inp2, err1 @ [NoBitMask, UnrecognizedFormat])
               else (bmp_color_header img, inp2, err1));
            inp4 = seekg (unat (offset_data fh)) inp3;
            ih1 = (if bit_count ih = 32 then ih\<lparr>header_size := 40 + 84\<rparr>
                   else ih\<lparr>header_size := 40\<rparr>);
            fh1 = (if bit_count ih = 32 then fh\<lparr>offset_data := 14 + 40 + 84\<rparr>
                   else fh\<lparr>offset_data := 14 + 40\<rparr>);
            fh2 = fh1\<lparr>file_size := offset_data fh1\<rparr>;
            err3 = (if height ih1 <s 0 then err2 @ [TopDownOrigin] else err2)
        in bindF (int32 (sint (width ih1) * sint (height ih1))) (\<lambda>wh.
           bindF (int32 (wh * uint (bit_count ih1))) (\<lambda>whb.
           bindF (if cdiv whb 8 < 0 then Inl LengthError
                  else Inr (resize (data img) (nat (cdiv whb 8)))) (\<lambda>d0.
           if crem (sint (width ih1)) 4 = 0 then
             let (got, inp5) = stream_read (length d0) inp4;
                 d1 = overlay d0 0 got;
                 fh3 = fh2\<lparr>file_size := file_size fh2 + word_of_nat (length d1)\<rparr>
             in Inr (img\<lparr>file_header := fh3, bmp_info_header := ih1, bmp_color_header := ch,
                        data := d1, channels := ucast (bit_count ih1) div 8\<rparr>, err3)
           else
             bindF (int32 (sint (width ih1) * uint (bit_count ih1))) (\<lambda>wb.
             let rs = (word_of_int (cdiv wb 8) :: u32)
             in bindF (make_stride_aligned rs 4) (\<lambda>new_stride.
                let pad = unat (new_stride - rs)
                in bindF (for_int 0 (sint (height ih1)) (read_row rs pad) (d0, inp4))
                     (\<lambda>(d1, inp5).
                let fh3 = fh2\<lparr>file_size := file_size fh2 +
                             (word_of_nat (length d1) + height ih1 * word_of_nat pad)\<rparr>
                in Inr (img\<lparr>file_header := fh3, bmp_info_header := ih1,
                           bmp_color_header := ch, data := d1,
                           channels := ucast (bit_count ih1) div 8, row_stride := rs\<rparr>,
                        err3))))))))"

text \<open>
  \<^verbatim>\<open>BMP(const char *fname)\<close>: the members take their default initialisers and \<^verbatim>\<open>read\<close>
  runs. \<^verbatim>\<open>channels\<close> has no initialiser; its indeterminate value is the parameter \<open>ch0\<close>.
\<close>

definition fresh_BMP :: "u32 \<Rightarrow> BMP" where
  "fresh_BMP ch0 =
     \<lparr>file_header = default_file_header, bmp_info_header = default_info_header,
      bmp_color_header = default_color_header, data = [], channels = ch0, row_stride = 0\<rparr>"

definition BMP_open :: "u8 list option \<Rightarrow> u32 \<Rightarrow> fault + env" where
  "BMP_open file ch0 = read file (fresh_BMP ch0, [])"





section \<open>Pixel access\<close>

text \<open>\<^verbatim>\<open>data[i]\<close> and \<^verbatim>\<open>data[i] = v\<close> on the vector; outside it the behaviour is undefined.\<close>

definition load :: "u8 list \<Rightarrow> u32 \<Rightarrow> fault + u8" where
  "load d i = (if unat i < length d then Inr (d ! unat i) else Inl OutOfBounds)"

definition store :: "u8 list \<Rightarrow> u32 \<Rightarrow> u8 \<Rightarrow> fault + u8 list" where
  "store d i v = (if unat i < length d then Inr (d[unat i := v]) else Inl OutOfBounds)"

text \<open>The test of \<^verbatim>\<open>getPixel\<close> and \<^verbatim>\<open>setPixel\<close>; the comparisons are unsigned.\<close>

definition pixel_outside :: "BMP \<Rightarrow> u32 \<Rightarrow> u32 \<Rightarrow> bool" where
  "pixel_outside img x y \<longleftrightarrow>
     x < 0 \<or> x > width (bmp_info_header img) \<or> y < 0 \<or> y > height (bmp_info_header img)"

definition pixel_pos :: "BMP \<Rightarrow> u32 \<Rightarrow> u32 \<Rightarrow> u32" where
  "pixel_pos img x y = channels img * (y * width (bmp_info_header img) + x)"

definition getPixel :: "u32 \<Rightarrow> u32 \<Rightarrow> env \<Rightarrow> fault + (Color \<times> env)" where
  "getPixel x y = (\<lambda>(img, err).
     let err' = (if pixel_outside img x y then err @ [PixelOutside] else err);
         pos = pixel_pos img x y
     in bindF (load (data img) (pos + 2)) (\<lambda>v2.
        bindF (load (data img) (pos + 1)) (\<lambda>v1.
        bindF (load (data img) (pos + 0)) (\<lambda>v0.
        let c = \<lparr>r = v2, g = v1, b = v0, alpha = 255\<rparr>
        in if channels img = 4
           then bindF (load (data img) (pos + 3)) (\<lambda>v3. Inr (c\<lparr>alpha := v3\<rparr>, (img, err')))
           else Inr (c, (img, err'))))))"

definition setPixel :: "u32 \<Rightarrow> u32 \<Rightarrow> Color \<Rightarrow> env \<Rightarrow> fault + env" where
  "setPixel x y c = (\<lambda>(img, err).
     let err' = (if pixel_outside img x y then err @ [PixelOutside] else err);
         pos = pixel_pos img x y
     in bindF (store (data img) (pos + 0) (b c)) (\<lambda>d0.
        bindF (store d0 (pos + 1) (g c)) (\<lambda>d1.
        bindF (store d1 (pos + 2) (r c)) (\<lambda>d2.
        bindF (if channels img = 4 then store d2 (pos + 3) (alpha c) else Inr d2) (\<lambda>d3.
        Inr (img\<lparr>data := d3\<rparr>, err'))))))"

section \<open>Whole-image transforms\<close>

text \<open>
  \<^verbatim>\<open>BlackWhite\<close> computes in \<^verbatim>\<open>float\<close>. Floating-point arithmetic is not embedded: the
  operations the function uses are parameters, so that what is proved of \<open>BlackWhite\<close>
  holds whatever they compute. \<open>f_of_int\<close> converts an \<^verbatim>\<open>int\<close> (the literal 1, a promoted
  byte), \<open>f_less\<close> is \<^verbatim>\<open><\<close>, and \<open>f_to_u8\<close> is the conversion to \<^verbatim>\<open>uint8_t\<close>, undefined
  (\<open>None\<close>) when the truncated value does not fit.
\<close>

record 'f float_ops =
  f_of_int :: "int \<Rightarrow> 'f"
  f_add :: "'f \<Rightarrow> 'f \<Rightarrow> 'f"
  f_mul :: "'f \<Rightarrow> 'f \<Rightarrow> 'f"
  f_less :: "'f \<Rightarrow> 'f \<Rightarrow> bool"
  f_to_u8 :: "'f \<Rightarrow> u8 option"

text \<open>The expression \<^verbatim>\<open>data[pos + 0] * b + data[pos + 1] * g + data[pos + 2] * r\<close>.\<close>

definition grey_value :: "'f float_ops \<Rightarrow> 'f \<Rightarrow> 'f \<Rightarrow> 'f \<Rightarrow> u8 \<Rightarrow> u8 \<Rightarrow> u8 \<Rightarrow> 'f" where
  "grey_value ops rw gw bw v0 v1 v2 =
     f_add ops
       (f_add ops (f_mul ops (f_of_int ops (uint v0)) bw) (f_mul ops (f_of_int ops (uint v1)) gw))
       (f_mul ops (f_of_int ops (uint v2)) rw)"

definition grey_pixel ::
  "'f float_ops \<Rightarrow> 'f \<Rightarrow> 'f \<Rightarrow> 'f \<Rightarrow> u32 \<Rightarrow> u8 list \<Rightarrow> fault + u8 list" where
  "grey_pixel ops rw gw bw pos d =
     bindF (load d (pos + 0)) (\<lambda>v0.
     bindF (load d (pos + 1)) (\<lambda>v1.
     bindF (load d (pos + 2)) (\<lambda>v2.
     case f_to_u8 ops (grey_value ops rw gw bw v0 v1 v2) of
       None \<Rightarrow> Inl FloatConversion
     | Some grey \<Rightarrow>
         bindF (store d (pos + 0) grey) (\<lambda>d0.
         bindF (store d0 (pos + 1) grey) (\<lambda>d1.
         store d1 (pos + 2) grey)))))"

definition BlackWhite :: "'f float_ops \<Rightarrow> 'f \<Rightarrow> 'f \<Rightarrow> 'f \<Rightarrow> env \<Rightarrow> fault + env" where
  "BlackWhite ops rw gw bw = (\<lambda>(img, err).
     let err' = (if f_less ops (f_of_int ops 1) (f_add ops (f_add ops rw gw) bw)
                 then err @ [InvalidGreyScale] else err)
     in bindF
          (for_u32 0 (height (bmp_info_header img)) (\<lambda>y.
             for_u32 0 (width (bmp_info_header img)) (\<lambda>x.
               grey_pixel ops rw gw bw (pixel_pos img x y)))
             (data img))
          (\<lambda>d. Inr (img\<lparr>data := d\<rparr>, err')))"

text \<open>\<^verbatim>\<open>data[i] = data[j]\<close>.\<close>

definition copy_byte :: "u8 list \<Rightarrow> u32 \<Rightarrow> u32 \<Rightarrow> fault + u8 list" where
  "copy_byte d i j = bindF (load d j) (\<lambda>v. store d i v)"

text \<open>The exchange of two pixels, the common body of \<^verbatim>\<open>FlipX\<close> and \<^verbatim>\<open>FlipY\<close>.\<close>

definition swap_pixels :: "u32 \<Rightarrow> u32 \<Rightarrow> u32 \<Rightarrow> u8 list \<Rightarrow> fault + u8 list" where
  "swap_pixels ch pos1 pos2 d =
     bindF (load d (pos1 + 2)) (\<lambda>aux_r.
     bindF (load d (pos1 + 1)) (\<lambda>aux_g.
     bindF (load d (pos1 + 0)) (\<lambda>aux_b.
     bindF (copy_byte d (pos1 + 0) (pos2 + 0)) (\<lambda>d1.
     bindF (copy_byte d1 (pos1 + 1) (pos2 + 1)) (\<lambda>d2.
     bindF (copy_byte d2 (pos1 + 2) (pos2 + 2)) (\<lambda>d3.
     bindF (store d3 (pos2 + 0) aux_b) (\<lambda>d4.
     bindF (store d4 (pos2 + 1) aux_g) (\<lambda>d5.
     bindF (store d5 (pos2 + 2) aux_r) (\<lambda>d6.
     if ch = 4 then
       bindF (load d6 (pos1 + 3)) (\<lambda>aux_alpha.
       bindF (copy_byte d6 (pos1 + 3) (pos2 + 3)) (\<lambda>d7.
       store d7 (pos2 + 3) aux_alpha))
     else Inr d6)))))))))"

definition FlipX :: "env \<Rightarrow> fault + env" where
  "FlipX = (\<lambda>(img, err).
     let w = width (bmp_info_header img); h = height (bmp_info_header img)
     in bindF
          (for_u32 0 h (\<lambda>y.
             for_u32 0 (w div 2) (\<lambda>x.
               swap_pixels (channels img)
                 (channels img * (y * w + x))
                 (channels img * (y * w + w - 1 - x))))
             (data img))
          (\<lambda>d. Inr (img\<lparr>data := d\<rparr>, err)))"

text \<open>In \<^verbatim>\<open>FlipY\<close> the subtraction \<^verbatim>\<open>height - 1\<close> is an \<^verbatim>\<open>int\<close> operation.\<close>

definition FlipY :: "env \<Rightarrow> fault + env" where
  "FlipY = (\<lambda>(img, err).
     let w = width (bmp_info_header img); h = height (bmp_info_header img)
     in bindF
          (for_u32 0 w (\<lambda>x.
             for_u32 0 (h div 2) (\<lambda>y d.
               bindF (int32 (sint h - 1)) (\<lambda>h1.
               swap_pixels (channels img)
                 (channels img * (y * w + x))
                 (channels img * ((word_of_int h1 - y) * w + x)) d)))
             (data img))
          (\<lambda>d. Inr (img\<lparr>data := d\<rparr>, err)))"

section \<open>The drawer\<close>

definition drawPixel :: "u32 \<Rightarrow> u32 \<Rightarrow> Color \<Rightarrow> env \<Rightarrow> fault + env" where
  "drawPixel x y c = setPixel x y c"

text \<open>
  \<^verbatim>\<open>drawLine\<close> never reads the image: its control flow depends on the coordinates only.
  \<open>drawLine_calls\<close> is the function with each \<^verbatim>\<open>drawPixel(x, y, c)\<close> recorded, in order,
  as the pair of \<^verbatim>\<open>uint32_t\<close> arguments it receives; \<open>drawLine\<close> then performs the calls.
  The inner \<^verbatim>\<open>while\<close> loop of the general case has no bound of its own, so it is a partial
  function: \<open>None\<close> stands for a loop that does not return.
\<close>

definition liftF :: "fault + 'a \<Rightarrow> ('a \<Rightarrow> (fault + 'b) option) \<Rightarrow> (fault + 'b) option" where
  "liftF m f = (case m of Inl e \<Rightarrow> Some (Inl e) | Inr v \<Rightarrow> f v)"

definition liftF_opt ::
  "(fault + 'a) option \<Rightarrow> ('a \<Rightarrow> (fault + 'b) option) \<Rightarrow> (fault + 'b) option" where
  "liftF_opt m f = (case m of None \<Rightarrow> None | Some res \<Rightarrow> liftF res f)"

partial_function (option) dda_while :: "int \<Rightarrow> int \<Rightarrow> int \<Rightarrow> int \<Rightarrow> (fault + int \<times> int) option" where
  "dda_while dx sy e y1 =
     (if 0 \<le> e then
        (case bindF (int32 (y1 + sy)) (\<lambda>y1'.
              bindF (int32 (dx * 2)) (\<lambda>dx2.
              bindF (int32 (e - dx2)) (\<lambda>e'. Inr (e', y1')))) of
           Inl f \<Rightarrow> Some (Inl f)
         | Inr (e', y1') \<Rightarrow> dda_while dx sy e' y1')
      else Some (Inr (e, y1)))"

declare dda_while.simps [code]

function dda_for ::
  "int \<Rightarrow> int \<Rightarrow> int \<Rightarrow> int \<Rightarrow> int \<Rightarrow> bool \<Rightarrow> int \<times> int \<times> int \<times> (u32 \<times> u32) list \<Rightarrow>
   (fault + int \<times> int \<times> int \<times> (u32 \<times> u32) list) option" where
  "dda_for i dx dy sx sy steep (x1, y1, e, calls) =
     (if i < dx then
        let calls' = calls @ [if steep then (word_of_int y1, word_of_int x1)
                              else (word_of_int x1, word_of_int y1)]
        in (case dda_while dx sy e y1 of
              None \<Rightarrow> None
            | Some (Inl f) \<Rightarrow> Some (Inl f)
            | Some (Inr (e1, y1')) \<Rightarrow>
                (case bindF (int32 (x1 + sx)) (\<lambda>x1'.
                      bindF (int32 (dy * 2)) (\<lambda>dy2.
                      bindF (int32 (e1 + dy2)) (\<lambda>e2. Inr (x1', e2)))) of
                   Inl f \<Rightarrow> Some (Inl f)
                 | Inr (x1', e2) \<Rightarrow> dda_for (i + 1) dx dy sx sy steep (x1', y1', e2, calls')))
      else Some (Inr (x1, y1, e, calls)))"
  by pat_completeness auto
termination
  by (relation "measure (\<lambda>(i, dx, dy, sx, sy, steep, s). nat (dx - i))") auto

declare dda_for.simps [simp del]

definition drawLine_calls :: "int \<Rightarrow> int \<Rightarrow> int \<Rightarrow> int \<Rightarrow> (fault + (u32 \<times> u32) list) option" where
  "drawLine_calls x1 y1 x2 y2 =
     (if x1 = x2 \<and> y1 = y2 then Some (Inr [(word_of_int x1, word_of_int y1)])
      else if y1 = y2 then
        let (x1, x2) = (if x1 > x2 then (x2, x1) else (x1, x2))
        in Some (bindF (int32 (x2 - x1)) (\<lambda>n.
             for_int 0 n (\<lambda>i calls.
               bindF (int32 (x1 + i)) (\<lambda>x. Inr (calls @ [(word_of_int x, word_of_int y1)]))) []))
      else if x1 = x2 then
        let (y1, y2) = (if y1 > y2 then (y2, y1) else (y1, y2))
        in Some (bindF (int32 (y2 - y1)) (\<lambda>n.
             for_int 0 n (\<lambda>i calls.
               bindF (int32 (y1 + i)) (\<lambda>y. Inr (calls @ [(word_of_int x1, word_of_int y)]))) []))
      else
        liftF (int32 (x2 - x1)) (\<lambda>xd.
        liftF (int32 (y2 - y1)) (\<lambda>yd.
        liftF (int32 \<bar>xd\<bar>) (\<lambda>dx.
        liftF (int32 \<bar>yd\<bar>) (\<lambda>dy.
        let sx = (if xd > 0 then 1 else - 1);
            sy = (if yd > 0 then 1 else - 1);
            (x1', y1', dx', dy', sx', sy', steep) =
              (if dy > dx then (y1, x1, dy, dx, sy, sx, True)
               else (x1, y1, dx, dy, sx, sy, False))
        in liftF (int32 (2 * dy')) (\<lambda>dy2.
           liftF (int32 (dy2 - dx')) (\<lambda>e.
           liftF_opt (dda_for 0 dx' dy' sx' sy' steep (x1', y1', e, [])) (\<lambda>(x1e, y1e, ee, calls).
             Some (Inr (calls @ [(word_of_int x2, word_of_int y2)]))))))))))"

definition drawPixels :: "(u32 \<times> u32) list \<Rightarrow> Color \<Rightarrow> env \<Rightarrow> fault + env" where
  "drawPixels calls c = foldF (\<lambda>(x, y). drawPixel x y c) calls"

definition drawLine :: "i32 \<Rightarrow> i32 \<Rightarrow> i32 \<Rightarrow> i32 \<Rightarrow> Color \<Rightarrow> env \<Rightarrow> (fault + env) option" where
  "drawLine x1 y1 x2 y2 c st =
     liftF_opt (drawLine_calls (sint x1) (sint y1) (sint x2) (sint y2))
       (\<lambda>calls. Some (drawPixels calls c st))"

text \<open>\<^verbatim>\<open>eraseRegion\<close>: the test on the channels only prints; the loops follow in any case.\<close>

definition eraseRegion :: "u32 \<Rightarrow> u32 \<Rightarrow> u32 \<Rightarrow> u32 \<Rightarrow> env \<Rightarrow> fault + env" where
  "eraseRegion x y w h = (\<lambda>(img, err).
     let err' = (if channels img \<noteq> 4 then err @ [EraseOnly32] else err)
     in for_u32 y (y + h) (\<lambda>yy.
          for_u32 x (x + w) (\<lambda>xx.
            drawPixel xx yy \<lparr>r = 0, g = 0, b = 0, alpha = 0\<rparr>))
          (img, err'))"

section \<open>Notions used in the statements\<close>

text \<open>
  The layout invariant of an image: three or four channels, positive dimensions, and a
  buffer of exactly \<open>channels * width * height\<close> bytes, a number that fits 32 bits.
\<close>

definition layout_ok :: "BMP \<Rightarrow> bool" where
  "layout_ok img \<longleftrightarrow>
     (channels img = 3 \<or> channels img = 4) \<and>
     0 <s width (bmp_info_header img) \<and> 0 <s height (bmp_info_header img) \<and>
     unat (channels img) * unat (width (bmp_info_header img)) * unat (height (bmp_info_header img)) < 2 ^ 32 \<and>
     length (data img) =
       unat (channels img) * unat (width (bmp_info_header img)) * unat (height (bmp_info_header img))"

text \<open>The index of the first byte of pixel \<open>(x, y)\<close>, as a natural number.\<close>

definition pixel_at :: "BMP \<Rightarrow> u32 \<Rightarrow> u32 \<Rightarrow> nat" where
  "pixel_at img x y =
     unat (channels img) * (unat y * unat (width (bmp_info_header img)) + unat x)"

text \<open>The bytes of one pixel, written and read at a byte index.\<close>

definition write_px :: "u8 list \<Rightarrow> nat \<Rightarrow> u32 \<Rightarrow> Color \<Rightarrow> u8 list" where
  "write_px d p ch c =
     (if ch = 4 then d[p := b c, p + 1 := g c, p + 2 := r c, p + 3 := alpha c]
      else d[p := b c, p + 1 := g c, p + 2 := r c])"

definition read_px :: "u8 list \<Rightarrow> nat \<Rightarrow> u32 \<Rightarrow> Color" where
  "read_px d p ch =
     \<lparr>r = d ! (p + 2), g = d ! (p + 1), b = d ! p, alpha = (if ch = 4 then d ! (p + 3) else 255)\<rparr>"

text \<open>A 24-bit image of one pixel, as \<open>BMP_new 1 1 False\<close> builds it, with the pixel set.\<close>

definition tiny24 :: BMP where
  "tiny24 =
     \<lparr>file_header = \<lparr>file_type = 0x4D42, file_size = 58, reserved1 = 0, reserved2 = 0, offset_data = 54\<rparr>,
      bmp_info_header = \<lparr>header_size = 40, width = 1, height = 1, planes = 1, bit_count = 24,
        compression = 0, size_image = 0, x_pixels_per_meter = 0, y_pixels_per_meter = 0,
        colors_used = 0, colors_important = 0\<rparr>,
      bmp_color_header = default_color_header,
      data = [1, 2, 3], channels = 3, row_stride = 3\<rparr>"

text \<open>Byte \<open>k\<close> of the pixel in column \<open>x\<close> and row \<open>y\<close>, coordinates as natural numbers.\<close>

definition byte_of :: "BMP \<Rightarrow> nat \<Rightarrow> nat \<Rightarrow> nat \<Rightarrow> u8" where
  "byte_of img x y k =
     data img ! (unat (channels img) * (y * unat (width (bmp_info_header img)) + x) + k)"

text \<open>The bytes \<open>setPixel\<close> stores for a colour, in the order of the buffer.\<close>

definition color_bytes :: "Color \<Rightarrow> u8 list" where
  "color_bytes c = [b c, g c, r c, alpha c]"

text \<open>A 32-bit image of two by two pixels, as \<open>BMP_new 2 2 True\<close> builds it, with the bytes set.\<close>

definition sample32 :: BMP where
  "sample32 =
     \<lparr>file_header = \<lparr>file_type = 0x4D42, file_size = 154, reserved1 = 0, reserved2 = 0, offset_data = 138\<rparr>,
      bmp_info_header = \<lparr>header_size = 124, width = 2, height = 2, planes = 1, bit_count = 32,
        compression = 3, size_image = 0, x_pixels_per_meter = 0, y_pixels_per_meter = 0,
        colors_used = 0, colors_important = 0\<rparr>,
      bmp_color_header = default_color_header,
      data = [1, 2, 3, 4, 5, 6, 7, 8, 9, 10, 11, 12, 13, 14, 15, 16], channels = 4, row_stride = 8\<rparr>"

text \<open>
  Floating-point arithmetic on integer values of small magnitude, where every operation
  of the program is exact: the sum and the product of two such values are the integers'
  sum and product, and an integer from 0 to 255 converts to the byte of that value.
\<close>

definition int_floats :: "int float_ops" where
  "int_floats =
     \<lparr>f_of_int = (\<lambda>i. i), f_add = (\<lambda>u v. u + v), f_mul = (\<lambda>u v. u * v),
      f_less = (\<lambda>u v. u < v),
      f_to_u8 = (\<lambda>v. if 0 \<le> v \<and> v \<le> 255 then Some (word_of_int v) else None)\<rparr>"

text \<open>The grey byte \<open>BlackWhite\<close> computes for the pixel \<open>(x, y)\<close> of an image.\<close>

definition grey_of :: "'f float_ops \<Rightarrow> 'f \<Rightarrow> 'f \<Rightarrow> 'f \<Rightarrow> BMP \<Rightarrow> nat \<Rightarrow> nat \<Rightarrow> u8 option" where
  "grey_of ops rw gw bw img x y =
     f_to_u8 ops (grey_value ops rw gw bw (byte_of img x y 0) (byte_of img x y 1) (byte_of img x y 2))"

text \<open>A pair of \<^verbatim>\<open>int32_t\<close> coordinates that names a pixel of the image.\<close>

definition inside :: "BMP \<Rightarrow> i32 \<Rightarrow> i32 \<Rightarrow> bool" where
  "inside img x y \<longleftrightarrow>
     0 \<le>s x \<and> x <s width (bmp_info_header img) \<and> 0 \<le>s y \<and> y <s height (bmp_info_header img)"


text \<open>A 24-bit image of six by four pixels, as \<open>BMP_new 6 4 False\<close> builds it.\<close>

definition canvas24 :: BMP where
  "canvas24 =
     \<lparr>file_header = \<lparr>file_type = 0x4D42, file_size = 134, reserved1 = 0, reserved2 = 0, offset_data = 54\<rparr>,
      bmp_info_header = \<lparr>header_size = 40, width = 6, height = 4, planes = 1, bit_count = 24,
        compression = 0, size_image = 0, x_pixels_per_meter = 0, y_pixels_per_meter = 0,
        colors_used = 0, colors_important = 0\<rparr>,
      bmp_color_header = default_color_header,
      data = replicate 72 0, channels = 3, row_stride = 18\<rparr>"

text \<open>
  What a run of \<^verbatim>\<open>read\<close> on a file with the signature \<^verbatim>\<open>BM\<close> becomes when the signature is
  \<open>t\<close> instead and the test on it only prints: the same fault, or the same image with
  \<open>t\<close> as its \<^verbatim>\<open>file_type\<close> and the diagnostic in front of the others.
\<close>

definition signature_ignored :: "u16 \<Rightarrow> diag list \<Rightarrow> fault + env \<Rightarrow> fault + env" where
  "signature_ignored t err res =
     (case res of
        Inl f \<Rightarrow> Inl f
      | Inr (im, e) \<Rightarrow>
          Inr (im\<lparr>file_header := (file_header im)\<lparr>file_type := t\<rparr>\<rparr>, err @ [UnrecognizedFormat] @ e))"

text \<open>
  The 58 bytes of a 24-bit file of one pixel, with the signature \<^verbatim>\<open>XX\<close> in the place
  of \<^verbatim>\<open>BM\<close>: file header, info header, the pixel and one byte of padding.
\<close>

definition xx_file :: "u8 list" where
  "xx_file =
     [88, 88, 58, 0, 0, 0, 0, 0, 0, 0, 54, 0, 0, 0,
      40, 0, 0, 0, 1, 0, 0, 0, 1, 0, 0, 0, 1, 0, 24, 0, 0, 0, 0, 0, 0, 0, 0, 0,
      0, 0, 0, 0, 0, 0, 0, 0, 0, 0, 0, 0, 0, 0, 0, 0,
      1, 2, 3, 0]"

text \<open>A stream over a file with two more bytes in front, at the same place of the rest.\<close>

definition after2 :: "u8 \<Rightarrow> u8 \<Rightarrow> ifstream \<Rightarrow> ifstream" where
  "after2 m0 m1 inp = \<lparr>contents = m0 # m1 # contents inp, gpos = Suc (Suc (gpos inp)), good = good inp\<rparr>"



section \<open>Loops as folds\<close>

lemma for_u32_foldF:
  "for_u32 i n body s = foldF body (map of_nat [unat i..<unat n]) s"
proof (induction i n body s rule: for_u32.induct)
  case (1 i n body s)
  show ?case
  proof (cases "i < n")
    case True
    then have *: "unat (i + 1) = Suc (unat i)" "unat i < unat n"
      by unat_arith+
    have "[unat i..<unat n] = unat i # [Suc (unat i)..<unat n]"
      using * by (simp add: upt_conv_Cons)
    then show ?thesis
      using True 1 * by (subst for_u32.simps) (simp split: sum.splits)
  next
    case False
    then have "unat n \<le> unat i" by (simp add: word_less_nat_alt)
    then show ?thesis using False by (subst for_u32.simps) simp
  qed
qed

section \<open>Pixel addressing\<close>

lemma pixel_index:
  fixes c w h x y :: u32
  assumes "unat c * unat w * unat h < 2 ^ 32" "x < w" "y < h" "0 < unat c"
  shows "unat (c * (y * w + x)) = unat c * (unat y * unat w + unat x)"
    and "unat c * (unat y * unat w + unat x) + unat c \<le> unat c * unat w * unat h"
proof -
  have xy: "unat x < unat w" "unat y < unat h"
    using assms by (simp_all add: word_less_nat_alt)
  have "unat y * unat w + unat x < unat w * unat h"
  proof -
    have "unat y * unat w + unat x < unat y * unat w + unat w" using xy by simp
    also have "\<dots> = Suc (unat y) * unat w" by simp
    also have "\<dots> \<le> unat h * unat w" using xy by (intro mult_le_mono1) simp
    finally show ?thesis by (simp add: mult.commute)
  qed
  then have "Suc (unat y * unat w + unat x) \<le> unat w * unat h" by simp
  then have "unat c * Suc (unat y * unat w + unat x) \<le> unat c * (unat w * unat h)"
    by (rule mult_le_mono2)
  then show le: "unat c * (unat y * unat w + unat x) + unat c \<le> unat c * unat w * unat h"
    by (simp add: mult.assoc)
  have b: "unat c * (unat y * unat w + unat x) < 2 ^ 32"
    using le assms(1,4) by linarith
  have b1: "unat y * unat w + unat x < 2 ^ 32"
  proof -
    have "unat y * unat w + unat x \<le> unat c * (unat y * unat w + unat x)"
      using assms(4) by simp
    then show ?thesis using b by linarith
  qed
  have b2: "unat y * unat w < 2 ^ 32" using b1 by linarith
  have "unat (y * w) = unat y * unat w"
    using b2 by (simp add: unat_mult_lem [THEN iffD1])
  moreover have "unat (y * w + x) = unat (y * w) + unat x"
    using b1 calculation by (simp add: unat_add_lem [THEN iffD1])
  ultimately have "unat (y * w + x) = unat y * unat w + unat x" by simp
  then show "unat (c * (y * w + x)) = unat c * (unat y * unat w + unat x)"
    using b by (simp add: unat_mult_lem [THEN iffD1])
qed

lemma unat_plus_small:
  fixes p :: u32
  assumes "unat p + k < 2 ^ 32"
  shows "unat (p + of_nat k) = unat p + k"
proof -
  have "k < 2 ^ 32" using assms by simp
  then have "unat (of_nat k :: u32) = k" by (simp add: unat_of_nat)
  then show ?thesis using assms by (simp add: unat_add_lem [THEN iffD1])
qed

lemma pixel_pos_nat:
  assumes "layout_ok img" "x < width (bmp_info_header img)" "y < height (bmp_info_header img)"
  shows "unat (pixel_pos img x y) = pixel_at img x y"
    and "pixel_at img x y + unat (channels img) \<le> length (data img)"
    and "length (data img) < 2 ^ 32"
proof -
  have c: "0 < unat (channels img)" using assms(1) by (auto simp: layout_ok_def)
  show "unat (pixel_pos img x y) = pixel_at img x y"
    unfolding pixel_pos_def pixel_at_def
    using assms c by (intro pixel_index(1)) (auto simp: layout_ok_def)
  show "pixel_at img x y + unat (channels img) \<le> length (data img)"
    unfolding pixel_at_def
    using assms c pixel_index(2) [of "channels img" "width (bmp_info_header img)" "height (bmp_info_header img)" x y]
    by (auto simp: layout_ok_def)
  show "length (data img) < 2 ^ 32" using assms(1) by (auto simp: layout_ok_def)
qed

lemma pixel_pos_offsets:
  assumes "layout_ok img" "x < width (bmp_info_header img)" "y < height (bmp_info_header img)"
  shows "unat (pixel_pos img x y + 0) = pixel_at img x y"
    and "unat (pixel_pos img x y + 1) = pixel_at img x y + 1"
    and "unat (pixel_pos img x y + 2) = pixel_at img x y + 2"
    and "channels img = 4 \<Longrightarrow> unat (pixel_pos img x y + 3) = pixel_at img x y + 3"
proof -
  note p = pixel_pos_nat [OF assms]
  have c: "3 \<le> unat (channels img)" using assms(1) by (auto simp: layout_ok_def)
  show "unat (pixel_pos img x y + 0) = pixel_at img x y" using p by simp
  show "unat (pixel_pos img x y + 1) = pixel_at img x y + 1"
    using unat_plus_small [of "pixel_pos img x y" 1] p c by simp
  show "unat (pixel_pos img x y + 2) = pixel_at img x y + 2"
    using unat_plus_small [of "pixel_pos img x y" 2] p c by simp
  show "unat (pixel_pos img x y + 3) = pixel_at img x y + 3" if "channels img = 4"
    using unat_plus_small [of "pixel_pos img x y" 3] p c that by simp
qed

lemma not_pixel_outside:
  "x < width (bmp_info_header img) \<Longrightarrow> y < height (bmp_info_header img) \<Longrightarrow>
   \<not> pixel_outside img x y"
  by (auto simp: pixel_outside_def)

lemma setPixel_inside:
  assumes "layout_ok img" "x < width (bmp_info_header img)" "y < height (bmp_info_header img)"
  shows "setPixel x y c (img, err) =
         Inr (img\<lparr>data := write_px (data img) (pixel_at img x y) (channels img) c\<rparr>, err)"
proof -
  note p = pixel_pos_nat [OF assms] and o = pixel_pos_offsets [OF assms]
  have c: "channels img = 3 \<or> channels img = 4" using assms(1) by (auto simp: layout_ok_def)
  then have "3 \<le> unat (channels img)" by auto
  then have "pixel_at img x y + 2 < length (data img)"
    "channels img = 4 \<Longrightarrow> pixel_at img x y + 3 < length (data img)"
    using p(2) by auto
  then show ?thesis
    using o not_pixel_outside [OF assms(2,3)]
    by (auto simp: setPixel_def bindF_def store_def write_px_def Let_def)
qed

lemma getPixel_inside:
  assumes "layout_ok img" "x < width (bmp_info_header img)" "y < height (bmp_info_header img)"
  shows "getPixel x y (img, err) =
         Inr (read_px (data img) (pixel_at img x y) (channels img), (img, err))"
proof -
  note p = pixel_pos_nat [OF assms] and o = pixel_pos_offsets [OF assms]
  have c: "channels img = 3 \<or> channels img = 4" using assms(1) by (auto simp: layout_ok_def)
  then have "3 \<le> unat (channels img)" by auto
  then have "pixel_at img x y + 2 < length (data img)"
    "channels img = 4 \<Longrightarrow> pixel_at img x y + 3 < length (data img)"
    using p(2) by auto
  then show ?thesis
    using o not_pixel_outside [OF assms(2,3)]
    by (auto simp: getPixel_def bindF_def load_def read_px_def Let_def)
qed

lemma length_write_px [simp]: "length (write_px d p ch c) = length d"
  by (simp add: write_px_def)

lemma layout_ok_data:
  "layout_ok img \<Longrightarrow> length d = length (data img) \<Longrightarrow> layout_ok (img\<lparr>data := d\<rparr>)"
  by (simp add: layout_ok_def)

lemma read_write_px:
  assumes "p + 2 < length d" "ch = 4 \<Longrightarrow> p + 3 < length d"
  shows "read_px (write_px d p ch c) p ch = c\<lparr>alpha := (if ch = 4 then alpha c else 255)\<rparr>"
  using assms by (simp add: read_px_def write_px_def)

section \<open>Reading back a pixel\<close>

text \<open>
  C10. On an image that satisfies the layout invariant, and for coordinates strictly
  inside it, \<open>setPixel\<close> succeeds without a diagnostic and \<open>getPixel\<close> at the same
  coordinates then returns the red, green and blue of the colour written; the alpha it
  returns is the colour's alpha on a 4-channel image and 255 on a 3-channel image.
\<close>

theorem getPixel_after_setPixel:
  assumes "layout_ok img"
    and "x < width (bmp_info_header img)" and "y < height (bmp_info_header img)"
  shows "\<exists>img'. setPixel x y c (img, err) = Inr (img', err) \<and>
           getPixel x y (img', err) =
             Inr (c\<lparr>alpha := (if channels img = 4 then alpha c else 255)\<rparr>, (img', err))"
proof -
  let ?p = "pixel_at img x y"
  let ?img' = "img\<lparr>data := write_px (data img) ?p (channels img) c\<rparr>"
  have set: "setPixel x y c (img, err) = Inr (?img', err)"
    by (rule setPixel_inside [OF assms])
  have ok: "layout_ok ?img'" using assms(1) by (simp add: layout_ok_data)
  have dims: "x < width (bmp_info_header ?img')" "y < height (bmp_info_header ?img')"
    using assms by simp_all
  have at: "pixel_at ?img' x y = ?p" by (simp add: pixel_at_def)
  have "3 \<le> unat (channels img)" using assms(1) by (auto simp: layout_ok_def)
  then have len: "?p + 2 < length (data img)" "channels img = 4 \<Longrightarrow> ?p + 3 < length (data img)"
    using pixel_pos_nat(2) [OF assms] by auto
  have "getPixel x y (?img', err) =
        Inr (read_px (data ?img') (pixel_at ?img' x y) (channels ?img'), (?img', err))"
    by (rule getPixel_inside [OF ok dims])
  also have "read_px (data ?img') (pixel_at ?img' x y) (channels ?img') =
             c\<lparr>alpha := (if channels img = 4 then alpha c else 255)\<rparr>"
    using len by (simp add: at read_write_px)
  finally show ?thesis using set by blast
qed

theorem getPixel_after_setPixel_witness:
  "layout_ok tiny24 \<and> (0::u32) < width (bmp_info_header tiny24) \<and> (0::u32) < height (bmp_info_header tiny24) \<and>
   (\<exists>img'. setPixel 0 0 \<lparr>r = 10, g = 20, b = 30, alpha = 40\<rparr> (tiny24, []) = Inr (img', []) \<and>
      getPixel 0 0 (img', []) = Inr (\<lparr>r = 10, g = 20, b = 30, alpha = 255\<rparr>, (img', [])))"
proof -
  have h: "layout_ok tiny24" "(0::u32) < width (bmp_info_header tiny24)"
    "(0::u32) < height (bmp_info_header tiny24)"
    by (simp_all add: layout_ok_def tiny24_def word_sless_alt)
  show ?thesis
    using h getPixel_after_setPixel [OF h, of "\<lparr>r = 10, g = 20, b = 30, alpha = 40\<rparr>" "[]"]
    by (simp add: tiny24_def)
qed

section \<open>Construction from dimensions\<close>

lemma sint_pos_unat:
  fixes w :: i32
  assumes "0 \<le> sint w"
  shows "unat w = nat (sint w)"
proof -
  have "sint w < 2 ^ 31" using sint_lt [of w] by simp
  then have "sint w < 2 ^ 32" by simp
  then have "take_bit 32 (sint w) = sint w"
    using assms by (simp add: take_bit_int_eq_self)
  then have "uint w = sint w" using uint_sint [of w] by simp
  then show ?thesis by (simp add: unat_eq_nat_uint)
qed

lemma unat_word_of_int_small:
  assumes "0 \<le> k" "k < 2 ^ 32"
  shows "unat (word_of_int k :: u32) = nat k"
proof -
  have "uint (word_of_int k :: u32) = k"
    using assms by (simp add: uint_word_of_int)
  then show ?thesis by (simp add: unat_eq_nat_uint)
qed

lemma stride_times_height:
  fixes w h :: i32
  assumes "0 <s w" "0 <s h" "0 < k" "sint w * k < 2 ^ 31" "sint w * k * sint h < 2 ^ 32"
  shows "unat ((word_of_int (sint w * k) :: u32) * h) = nat (sint w * sint h * k)"
proof -
  have pos: "0 < sint w" "0 < sint h" using assms by (simp_all add: word_sless_alt)
  have a: "unat (word_of_int (sint w * k) :: u32) = nat (sint w * k)"
    using pos assms by (intro unat_word_of_int_small) simp_all
  have b: "unat h = nat (sint h)" using pos by (intro sint_pos_unat) simp
  have "nat (sint w * k) * nat (sint h) = nat (sint w * k * sint h)"
    using pos assms(3) by (simp add: nat_mult_distrib)
  moreover have "nat (sint w * k * sint h) < 2 ^ 32" using assms(5) by simp
  ultimately have "unat (word_of_int (sint w * k) :: u32) * unat h < 2 ^ 32"
    using a b by simp
  then have "unat ((word_of_int (sint w * k) :: u32) * h) = nat (sint w * k) * nat (sint h)"
    using a b by (simp add: unat_mult_lem [THEN iffD1])
  also have "\<dots> = nat (sint w * k * sint h)"
    using pos assms(3) by (simp add: nat_mult_distrib)
  also have "sint w * k * sint h = sint w * sint h * k" by (simp add: mult_ac)
  finally show ?thesis .
qed

lemma BMP_new_returns:
  assumes "int32 (sint w * (if has_alpha then 4 else 3)) = Inr v"
  shows "\<exists>img. BMP_new w h has_alpha =
           Inr (img, if w \<le>s 0 \<or> h \<le>s 0 then [DimsNotPositive] else [])"
proof (cases has_alpha)
  case True
  then have "int32 (sint w * 4) = Inr v" using assms by simp
  then show ?thesis using True
    by (simp add: BMP_new_def bindF_def Let_def del: of_int_sint)
next
  case False
  then have "int32 (sint w * 3) = Inr v" using assms by simp
  then show ?thesis using False
    by (simp add: BMP_new_def bindF_def Let_def make_stride_aligned_def del: of_int_sint)
qed

lemma BMP_new_fields:
  assumes "int32 (sint w * (if has_alpha then 4 else 3)) = Inr v"
    and "BMP_new w h has_alpha = Inr (img, err)"
  shows "data img = replicate (unat ((word_of_int v :: u32) * h)) 0"
    and "width (bmp_info_header img) = w" and "height (bmp_info_header img) = h"
    and "channels img = (if has_alpha then 4 else 3)"
proof -
  have "data img = replicate (unat ((word_of_int v :: u32) * h)) 0 \<and>
        width (bmp_info_header img) = w \<and> height (bmp_info_header img) = h \<and>
        channels img = (if has_alpha then 4 else 3)"
  proof (cases has_alpha)
    case True
    then have "int32 (sint w * 4) = Inr v" using assms by simp
    then show ?thesis using assms(2) True
      by (auto simp add: BMP_new_def bindF_def Let_def resize_def default_info_header_def
          simp del: of_int_sint)
  next
    case False
    then have "int32 (sint w * 3) = Inr v" using assms by simp
    then show ?thesis using assms(2) False
      by (auto simp add: BMP_new_def bindF_def Let_def resize_def default_info_header_def
          make_stride_aligned_def simp del: of_int_sint)
  qed
  then show "data img = replicate (unat ((word_of_int v :: u32) * h)) 0"
    and "width (bmp_info_header img) = w" and "height (bmp_info_header img) = h"
    and "channels img = (if has_alpha then 4 else 3)" by simp_all
qed

text \<open>
  C7, as amended. For positive dimensions whose stride \<open>width * k\<close> fits an \<^verbatim>\<open>int\<close> and
  whose buffer size \<open>width * k * height\<close> fits 32 bits (\<open>k\<close> is 4 with alpha and 3
  without), \<open>BMP_new\<close> prints nothing and builds a buffer of exactly
  \<open>width * height * k\<close> bytes, all zero.
\<close>

theorem BMP_new_zero_buffer:
  assumes "0 <s w" and "0 <s h"
    and "sint w * (if has_alpha then 4 else 3) < 2 ^ 31"
    and "sint w * (if has_alpha then 4 else 3) * sint h < 2 ^ 32"
  shows "\<exists>img. BMP_new w h has_alpha = Inr (img, []) \<and>
           data img = replicate (nat (sint w * sint h * (if has_alpha then 4 else 3))) 0"
proof -
  let ?k = "if has_alpha then 4 else 3 :: int"
  have pos: "0 < sint w" "0 < sint h" using assms by (simp_all add: word_sless_alt)
  have nd: "\<not> (w \<le>s 0 \<or> h \<le>s 0)" using pos by (simp add: word_sle_eq)
  have i: "int32 (sint w * ?k) = Inr (sint w * ?k)"
    using pos assms(3) by (simp add: int32_def)
  obtain img where img: "BMP_new w h has_alpha = Inr (img, [])"
    using BMP_new_returns [OF i, of h] nd by auto
  have "data img = replicate (unat ((word_of_int (sint w * ?k) :: u32) * h)) 0"
    by (rule BMP_new_fields(1) [OF i img])
  moreover have "unat ((word_of_int (sint w * ?k) :: u32) * h) = nat (sint w * sint h * ?k)"
    using assms by (intro stride_times_height) simp_all
  ultimately show ?thesis using img by simp
qed

theorem BMP_new_zero_buffer_witness:
  "0 <s (2::i32) \<and> 0 <s (3::i32) \<and> sint (2::i32) * (if True then 4 else 3) < 2 ^ 31 \<and>
   sint (2::i32) * (if True then 4 else 3) * sint (3::i32) < 2 ^ 32 \<and>
   (\<exists>img. BMP_new 2 3 True = Inr (img, []) \<and> data img = replicate 24 0)"
proof -
  have h: "0 <s (2::i32)" "0 <s (3::i32)" "sint (2::i32) * (if True then 4 else 3) < 2 ^ 31"
    "sint (2::i32) * (if True then 4 else 3) * sint (3::i32) < 2 ^ 32"
    by (simp_all add: word_sless_alt)
  show ?thesis using h BMP_new_zero_buffer [OF h] by simp
qed

text \<open>
  C7 as stated fails: the buffer size is computed in 32 bits. For width 65536 and height
  16384 with alpha, \<open>row_stride * height\<close> is \<open>2 ^ 32\<close>, which wraps to 0: the buffer
  is empty, not \<open>65536 * 16384 * 4\<close> bytes long.
\<close>

theorem BMP_new_size_wraps:
  "BMP_new 65536 16384 True =
     Inr (\<lparr>file_header = \<lparr>file_type = 0x4D42, file_size = 138, reserved1 = 0, reserved2 = 0,
             offset_data = 138\<rparr>,
           bmp_info_header = \<lparr>header_size = 124, width = 65536, height = 16384, planes = 1,
             bit_count = 32, compression = 3, size_image = 0, x_pixels_per_meter = 0,
             y_pixels_per_meter = 0, colors_used = 0, colors_important = 0\<rparr>,
           bmp_color_header = default_color_header,
           data = [], channels = 4, row_stride = 262144\<rparr>, [])"
  by (simp add: BMP_new_def bindF_def int32_def Let_def resize_def default_file_header_def
      default_info_header_def word_sle_eq)

section \<open>Dimensions that are not positive\<close>

text \<open>
  C8, as amended. For a width or height that is not positive, \<open>BMP_new\<close> prints the
  message about the dimensions and does not fail: whenever the stride \<open>width * k\<close> fits
  an \<^verbatim>\<open>int\<close> it builds an image with the given width and height, the channels of the
  flag, and a zero buffer of \<open>width * k * height\<close> (modulo \<open>2 ^ 32\<close>) bytes.
\<close>

theorem BMP_new_not_positive:
  assumes "w \<le>s 0 \<or> h \<le>s 0"
    and "- (2 ^ 31) \<le> sint w * (if has_alpha then 4 else 3)"
    and "sint w * (if has_alpha then 4 else 3) < 2 ^ 31"
  shows "\<exists>img. BMP_new w h has_alpha = Inr (img, [DimsNotPositive]) \<and>
           width (bmp_info_header img) = w \<and> height (bmp_info_header img) = h \<and>
           channels img = (if has_alpha then 4 else 3) \<and>
           data img = replicate (unat (w * (if has_alpha then 4 else 3) * h)) 0"
proof -
  let ?k = "if has_alpha then 4 else 3 :: int"
  have i: "int32 (sint w * ?k) = Inr (sint w * ?k)"
    using assms(2,3) by (simp add: int32_def)
  obtain img where img: "BMP_new w h has_alpha = Inr (img, [DimsNotPositive])"
    using BMP_new_returns [OF i, of h] assms(1) by auto
  note f = BMP_new_fields [OF i img]
  have "(word_of_int (sint w * ?k) :: u32) = w * (if has_alpha then 4 else 3)"
    by simp
  then show ?thesis using img f by simp
qed

theorem BMP_new_not_positive_witness:
  "((0::i32) \<le>s 0 \<or> (3::i32) \<le>s 0) \<and>
   - (2 ^ 31) \<le> sint (0::i32) * (if True then 4 else 3) \<and>
   sint (0::i32) * (if True then 4 else 3) < 2 ^ 31 \<and>
   (\<exists>img. BMP_new 0 3 True = Inr (img, [DimsNotPositive]) \<and>
      width (bmp_info_header img) = 0 \<and> height (bmp_info_header img) = 3 \<and>
      channels img = 4 \<and> data img = [])"
proof -
  have h: "(0::i32) \<le>s 0 \<or> (3::i32) \<le>s 0"
    "- (2 ^ 31) \<le> sint (0::i32) * (if True then 4 else 3)"
    "sint (0::i32) * (if True then 4 else 3) < 2 ^ 31"
    by (simp_all add: word_sle_eq)
  show ?thesis using h BMP_new_not_positive [OF h] by simp
qed

text \<open>
  C8 as stated fails: \<open>BMP_new 0 3 True\<close> does not fail; it returns an image of width
  0 with an empty buffer, after the diagnostic.
\<close>

theorem BMP_new_zero_width_constructs:
  "BMP_new 0 3 True =
     Inr (\<lparr>file_header = \<lparr>file_type = 0x4D42, file_size = 138, reserved1 = 0, reserved2 = 0,
             offset_data = 138\<rparr>,
           bmp_info_header = \<lparr>header_size = 124, width = 0, height = 3, planes = 1,
             bit_count = 32, compression = 3, size_image = 0, x_pixels_per_meter = 0,
             y_pixels_per_meter = 0, colors_used = 0, colors_important = 0\<rparr>,
           bmp_color_header = default_color_header,
           data = [], channels = 4, row_stride = 0\<rparr>, [DimsNotPositive])"
  by (simp add: BMP_new_def bindF_def int32_def Let_def resize_def default_file_header_def
      default_info_header_def word_sle_eq)

section \<open>Folds and invariants\<close>

lemma foldF_append:
  "foldF body (xs @ ys) s = bindF (foldF body xs s) (foldF body ys)"
  by (induction xs arbitrary: s) (simp_all add: bindF_def split: sum.splits)

lemma foldF_map: "foldF body (map f xs) s = foldF (\<lambda>x. body (f x)) xs s"
  by (induction xs arbitrary: s) (simp_all split: sum.splits)

lemma foldF_cong:
  "(\<And>x s. x \<in> set xs \<Longrightarrow> body x s = body' x s) \<Longrightarrow> foldF body xs s = foldF body' xs s"
  by (induction xs arbitrary: s) (simp_all split: sum.splits)

lemma foldF_product:
  "foldF (\<lambda>y. foldF (\<lambda>x. f y x) xs) ys s = foldF (\<lambda>(y, x). f y x) (List.product ys xs) s"
proof (induction ys arbitrary: s)
  case Nil
  show ?case by simp
next
  case (Cons y ys)
  have "foldF (\<lambda>(y, x). f y x) (map (Pair y) xs) s = foldF (f y) xs s" for s
    by (simp add: foldF_map)
  then show ?case
    using Cons by (simp add: foldF_append bindF_def split: sum.splits)
qed

lemma foldF_invariant_aux:
  assumes step: "\<And>pre x post s. xs0 = pre @ x # post \<Longrightarrow> I pre s \<Longrightarrow>
                   \<exists>s'. body x s = Inr s' \<and> I (pre @ [x]) s'"
  shows "xs0 = pre @ xs \<Longrightarrow> I pre s \<Longrightarrow> \<exists>s'. foldF body xs s = Inr s' \<and> I (pre @ xs) s'"
proof (induction xs arbitrary: pre s)
  case Nil
  then show ?case by simp
next
  case (Cons x xs)
  obtain s1 where s1: "body x s = Inr s1" "I (pre @ [x]) s1"
    using step [OF Cons.prems(1) Cons.prems(2)] by blast
  have "xs0 = (pre @ [x]) @ xs" using Cons.prems(1) by simp
  from Cons.IH [OF this s1(2)] obtain s' where "foldF body xs s1 = Inr s'" "I ((pre @ [x]) @ xs) s'"
    by blast
  then show ?case using s1 by simp
qed

lemma foldF_invariant:
  assumes "I [] s"
    and "\<And>pre x post s. xs = pre @ x # post \<Longrightarrow> I pre s \<Longrightarrow>
           \<exists>s'. body x s = Inr s' \<and> I (pre @ [x]) s'"
  shows "\<exists>s'. foldF body xs s = Inr s' \<and> I xs s'"
  using foldF_invariant_aux [of xs I body "[]" xs s] assms by simp


section \<open>The bytes of a pixel\<close>

lemma divmod_unique:
  fixes m :: nat
  assumes "a < m" "a' < m"
  shows "q * m + a = q' * m + a' \<longleftrightarrow> q = q' \<and> a = a'"
proof
  assume e: "q * m + a = q' * m + a'"
  have "(q * m + a) div m = q" "(q' * m + a') div m = q'" using assms by simp_all
  then have "q = q'" using e by simp
  then show "q = q' \<and> a = a'" using e by simp
qed simp

lemma byte_index_unique:
  fixes ch w :: nat
  assumes "x < w" "x' < w" "k < ch" "k' < ch"
  shows "ch * (y * w + x) + k = ch * (y' * w + x') + k' \<longleftrightarrow> x = x' \<and> y = y' \<and> k = k'"
proof -
  have "ch * (y * w + x) + k = ch * (y' * w + x') + k' \<longleftrightarrow> y * w + x = y' * w + x' \<and> k = k'"
    using divmod_unique [OF assms(3,4), of "y * w + x" "y' * w + x'"] by (simp add: mult.commute)
  also have "y * w + x = y' * w + x' \<longleftrightarrow> y = y' \<and> x = x'"
    using divmod_unique [OF assms(1,2)] by simp
  finally show ?thesis by auto
qed

lemma byte_index_bound:
  fixes ch w h :: nat
  assumes "x < w" "y < h" "k < ch"
  shows "ch * (y * w + x) + k < ch * w * h"
proof -
  have "y * w + x < y * w + w" using assms by simp
  also have "\<dots> = Suc y * w" by simp
  also have "\<dots> \<le> h * w" using assms by (intro mult_le_mono1) simp
  finally have "Suc (y * w + x) \<le> w * h" by (simp add: mult.commute)
  then have "ch * Suc (y * w + x) \<le> ch * (w * h)" by (rule mult_le_mono2)
  then show ?thesis using assms(3) by (simp add: mult.assoc)
qed

lemma write_px_nth:
  assumes "p + unat ch \<le> length d" "ch = 3 \<or> ch = 4" "i < length d"
  shows "write_px d p ch c ! i =
         (if p \<le> i \<and> i < p + unat ch then color_bytes c ! (i - p) else d ! i)"
proof -
  consider "i < p" | "i = p" | "i = p + 1" | "i = p + 2" | "i = p + 3" | "p + 3 < i" by linarith
  then show ?thesis
    using assms by cases (auto simp: write_px_def color_bytes_def nth_list_update)
qed

lemma setPixel_bytes:
  assumes ok: "layout_ok img"
    and x: "x < width (bmp_info_header img)" and y: "y < height (bmp_info_header img)"
  shows "\<exists>d'. setPixel x y c (img, err) = Inr (img\<lparr>data := d'\<rparr>, err) \<and>
           length d' = length (data img) \<and>
           (\<forall>x' y' k. x' < unat (width (bmp_info_header img)) \<longrightarrow>
              y' < unat (height (bmp_info_header img)) \<longrightarrow> k < unat (channels img) \<longrightarrow>
              byte_of (img\<lparr>data := d'\<rparr>) x' y' k =
                (if x' = unat x \<and> y' = unat y then color_bytes c ! k else byte_of img x' y' k))"
proof -
  let ?w = "unat (width (bmp_info_header img))" and ?h = "unat (height (bmp_info_header img))"
  let ?ch = "unat (channels img)"
  let ?p = "pixel_at img x y"
  let ?d = "write_px (data img) ?p (channels img) c"
  have ch: "channels img = 3 \<or> channels img = 4" using ok by (simp add: layout_ok_def)
  have len: "length (data img) = ?ch * ?w * ?h" using ok by (simp add: layout_ok_def)
  have xy: "unat x < ?w" "unat y < ?h" using x y by (simp_all add: word_less_nat_alt)
  have fits: "?p + ?ch \<le> length (data img)" by (rule pixel_pos_nat(2) [OF ok x y])
  have "byte_of (img\<lparr>data := ?d\<rparr>) x' y' k =
          (if x' = unat x \<and> y' = unat y then color_bytes c ! k else byte_of img x' y' k)"
    if b: "x' < ?w" "y' < ?h" "k < ?ch" for x' y' k
  proof -
    let ?i = "?ch * (y' * ?w + x') + k"
    have i: "?i < length (data img)" using byte_index_bound [OF b] len by simp
    have in_px: "(?p \<le> ?i \<and> ?i < ?p + ?ch) \<longleftrightarrow> (x' = unat x \<and> y' = unat y)"
    proof
      assume r: "?p \<le> ?i \<and> ?i < ?p + ?ch"
      define k' where "k' = ?i - ?p"
      have "?i = ?p + k'" "k' < ?ch" using r unfolding k'_def by linarith+
      then have "?ch * (y' * ?w + x') + k = ?ch * (unat y * ?w + unat x) + k'"
        by (simp add: pixel_at_def)
      then show "x' = unat x \<and> y' = unat y"
        using byte_index_unique [OF b(1) xy(1) b(3) \<open>k' < ?ch\<close>, of y' "unat y"] by simp
    next
      assume "x' = unat x \<and> y' = unat y"
      then show "?p \<le> ?i \<and> ?i < ?p + ?ch" using b(3) by (simp add: pixel_at_def)
    qed
    have "byte_of (img\<lparr>data := ?d\<rparr>) x' y' k = ?d ! ?i" by (simp add: byte_of_def)
    also have "\<dots> = (if ?p \<le> ?i \<and> ?i < ?p + ?ch then color_bytes c ! (?i - ?p) else data img ! ?i)"
      by (rule write_px_nth [OF fits ch i])
    also have "\<dots> = (if x' = unat x \<and> y' = unat y then color_bytes c ! k else byte_of img x' y' k)"
      unfolding in_px by (auto simp: byte_of_def pixel_at_def)
    finally show ?thesis .
  qed
  then show ?thesis
    using setPixel_inside [OF ok x y, of c err] by (intro exI [of _ ?d]) simp
qed

lemma drawPixels_bytes:
  assumes ok: "layout_ok img"
    and inside: "\<And>x y. (x, y) \<in> set ps \<Longrightarrow>
                   x < width (bmp_info_header img) \<and> y < height (bmp_info_header img)"
  shows "\<exists>d'. foldF (\<lambda>(x, y). setPixel x y c) ps (img, err) = Inr (img\<lparr>data := d'\<rparr>, err) \<and>
           length d' = length (data img) \<and>
           (\<forall>x' y' k. x' < unat (width (bmp_info_header img)) \<longrightarrow>
              y' < unat (height (bmp_info_header img)) \<longrightarrow> k < unat (channels img) \<longrightarrow>
              byte_of (img\<lparr>data := d'\<rparr>) x' y' k =
                (if (x', y') \<in> (\<lambda>(x, y). (unat x, unat y)) ` set ps then color_bytes c ! k
                 else byte_of img x' y' k))"
proof -
  let ?W = "unat (width (bmp_info_header img))" and ?H = "unat (height (bmp_info_header img))"
  let ?C = "unat (channels img)"
  define I where "I pre s \<longleftrightarrow>
    (\<exists>d'. s = (img\<lparr>data := d'\<rparr>, err) \<and> length d' = length (data img) \<and>
       (\<forall>x' y' k. x' < ?W \<longrightarrow> y' < ?H \<longrightarrow> k < ?C \<longrightarrow>
          byte_of (img\<lparr>data := d'\<rparr>) x' y' k =
            (if (x', y') \<in> (\<lambda>(x, y). (unat x, unat y)) ` set pre then color_bytes c ! k
             else byte_of img x' y' k)))" for pre :: "(u32 \<times> u32) list" and s :: env
  have init: "I [] (img, err)"
    unfolding I_def by (intro exI [of _ "data img"]) simp
  have step: "\<exists>s'. (\<lambda>(x, y). setPixel x y c) p s = Inr s' \<and> I (pre @ [p]) s'"
    if split: "ps = pre @ p # post" and inv: "I pre s" for pre p post s
  proof -
    obtain x y where p: "p = (x, y)" by (cases p)
    have "(x, y) \<in> set ps" using split p by simp
    then have xy: "x < width (bmp_info_header img)" "y < height (bmp_info_header img)"
      using inside by blast+
    obtain d1 where s: "s = (img\<lparr>data := d1\<rparr>, err)" and l1: "length d1 = length (data img)"
      and b1: "\<And>x' y' k. x' < ?W \<Longrightarrow> y' < ?H \<Longrightarrow> k < ?C \<Longrightarrow>
          byte_of (img\<lparr>data := d1\<rparr>) x' y' k =
            (if (x', y') \<in> (\<lambda>(x, y). (unat x, unat y)) ` set pre then color_bytes c ! k
             else byte_of img x' y' k)"
      using inv unfolding I_def by blast
    let ?img1 = "img\<lparr>data := d1\<rparr>"
    have ok1: "layout_ok ?img1" using ok l1 by (simp add: layout_ok_data)
    have xy1: "x < width (bmp_info_header ?img1)" "y < height (bmp_info_header ?img1)"
      using xy by simp_all
    obtain d2 where set: "setPixel x y c (?img1, err) = Inr (?img1\<lparr>data := d2\<rparr>, err)"
      and l2: "length d2 = length (data ?img1)"
      and b2: "\<And>x' y' k. x' < ?W \<Longrightarrow> y' < ?H \<Longrightarrow> k < ?C \<Longrightarrow>
          byte_of (?img1\<lparr>data := d2\<rparr>) x' y' k =
            (if x' = unat x \<and> y' = unat y then color_bytes c ! k else byte_of ?img1 x' y' k)"
      using setPixel_bytes [OF ok1 xy1, of c err] by auto
    have "I (pre @ [p]) (img\<lparr>data := d2\<rparr>, err)"
      unfolding I_def
    proof (intro exI [of _ d2] conjI allI impI)
      show "length d2 = length (data img)" using l2 l1 by simp
    next
      fix x' y' k assume b: "x' < ?W" "y' < ?H" "k < ?C"
      have "byte_of (img\<lparr>data := d2\<rparr>) x' y' k =
            (if x' = unat x \<and> y' = unat y then color_bytes c ! k else byte_of ?img1 x' y' k)"
        using b2 [OF b] by simp
      then show "byte_of (img\<lparr>data := d2\<rparr>) x' y' k =
            (if (x', y') \<in> (\<lambda>(x, y). (unat x, unat y)) ` set (pre @ [p]) then color_bytes c ! k
             else byte_of img x' y' k)"
        using b1 [OF b] p by auto
    qed simp
    then show ?thesis using set s p by simp
  qed
  have "\<exists>s'. foldF (\<lambda>(x, y). setPixel x y c) ps (img, err) = Inr s' \<and> I ps s'"
  proof (rule foldF_invariant [where I = I])
    show "I [] (img, err)" by (rule init)
  next
    fix pre p post s
    assume "ps = pre @ p # post" "I pre s"
    then show "\<exists>s'. (\<lambda>(x, y). setPixel x y c) p s = Inr s' \<and> I (pre @ [p]) s'"
      by (rule step)
  qed
  then show ?thesis unfolding I_def by blast
qed

section \<open>Erasing a region of an image without alpha\<close>

lemma unat_of_nat_u32: "i < 2 ^ 32 \<Longrightarrow> unat (of_nat i :: u32) = i"
  by (simp add: unat_of_nat)

lemma word_range:
  fixes a n m :: u32
  assumes "unat a + unat n \<le> unat m"
  shows "unat (a + n) = unat a + unat n"
    and "\<And>v. v \<in> set (map of_nat [unat a..<unat (a + n)]) \<Longrightarrow> v < m"
    and "unat ` set (map of_nat [unat a..<unat (a + n)] :: u32 list) = {unat a..<unat a + unat n}"
proof -
  have m: "unat m < 2 ^ 32" using unsigned_less [of m] by simp
  then have lt: "unat a + unat n < 2 ^ 32" using assms by linarith
  then show e: "unat (a + n) = unat a + unat n"
    by (simp add: unat_add_lem [THEN iffD1])
  have u: "unat (of_nat i :: u32) = i" if "i < unat a + unat n" for i
    using that lt by (intro unat_of_nat_u32) linarith
  show "v < m" if v: "v \<in> set (map of_nat [unat a..<unat (a + n)])" for v
  proof -
    obtain i where "v = of_nat i" "i < unat a + unat n" using v e by auto
    then show ?thesis using u assms by (simp add: word_less_nat_alt)
  qed
  show "unat ` set (map of_nat [unat a..<unat (a + n)] :: u32 list) = {unat a..<unat a + unat n}"
  proof -
    have "unat ` set (map of_nat [unat a..<unat (a + n)] :: u32 list) =
          (\<lambda>i. unat (of_nat i :: u32)) ` {unat a..<unat a + unat n}"
      by (simp add: e image_image)
    also have "\<dots> = (\<lambda>i. i) ` {unat a..<unat a + unat n}"
      by (rule image_cong) (simp_all add: u)
    finally show ?thesis by simp
  qed
qed

text \<open>
  C2, as amended. On a 3-channel image that satisfies the layout invariant, and for a
  region that lies inside the image, \<open>eraseRegion\<close> prints the message "only for 32
  bits/pixel" and then writes all the same: it returns the image with the three bytes of
  every pixel of the region set to 0 and every other pixel as it was.
\<close>

theorem eraseRegion_without_alpha:
  assumes ok: "layout_ok img" and ch: "channels img = 3"
    and xw: "unat x + unat w \<le> unat (width (bmp_info_header img))"
    and yh: "unat y + unat h \<le> unat (height (bmp_info_header img))"
  shows "\<exists>d'. eraseRegion x y w h (img, err) = Inr (img\<lparr>data := d'\<rparr>, err @ [EraseOnly32]) \<and>
           length d' = length (data img) \<and>
           (\<forall>x' y' k. x' < unat (width (bmp_info_header img)) \<longrightarrow>
              y' < unat (height (bmp_info_header img)) \<longrightarrow> k < 3 \<longrightarrow>
              byte_of (img\<lparr>data := d'\<rparr>) x' y' k =
                (if unat x \<le> x' \<and> x' < unat x + unat w \<and> unat y \<le> y' \<and> y' < unat y + unat h
                 then 0 else byte_of img x' y' k))"
proof -
  let ?c = "\<lparr>r = 0, g = 0, b = 0, alpha = 0\<rparr>"
  let ?xs = "map of_nat [unat x..<unat (x + w)] :: u32 list"
  let ?ys = "map of_nat [unat y..<unat (y + h)] :: u32 list"
  let ?ps = "map prod.swap (List.product ?ys ?xs)"
  note rx = word_range [OF xw] and ry = word_range [OF yh]
  have inner: "for_u32 x (x + w) (\<lambda>xx. drawPixel xx yy ?c) = foldF (\<lambda>xx. setPixel xx yy ?c) ?xs"
    for yy
    by (rule ext) (simp add: for_u32_foldF drawPixel_def)
  have "eraseRegion x y w h (img, err) =
        foldF (\<lambda>yy. foldF (\<lambda>xx. setPixel xx yy ?c) ?xs) ?ys (img, err @ [EraseOnly32])"
    using ch by (simp add: eraseRegion_def inner for_u32_foldF)
  also have "\<dots> = foldF (\<lambda>(yy, xx). setPixel xx yy ?c) (List.product ?ys ?xs)
                     (img, err @ [EraseOnly32])"
    by (rule foldF_product)
  also have "\<dots> = foldF (\<lambda>(xx, yy). setPixel xx yy ?c) ?ps (img, err @ [EraseOnly32])"
    by (simp add: foldF_map case_prod_unfold)
  finally have loops: "eraseRegion x y w h (img, err) =
        foldF (\<lambda>(xx, yy). setPixel xx yy ?c) ?ps (img, err @ [EraseOnly32])" .
  have inside: "xx < width (bmp_info_header img) \<and> yy < height (bmp_info_header img)"
    if "(xx, yy) \<in> set ?ps" for xx yy
  proof -
    have "xx \<in> set ?xs" "yy \<in> set ?ys" using that by auto
    then show ?thesis using rx(2) ry(2) by blast
  qed
  have member: "(x', y') \<in> (\<lambda>(a, b). (unat a, unat b)) ` set ?ps \<longleftrightarrow>
        unat x \<le> x' \<and> x' < unat x + unat w \<and> unat y \<le> y' \<and> y' < unat y + unat h" for x' y'
  proof -
    have "(\<lambda>(a, b). (unat a, unat b)) ` set ?ps = (unat ` set ?xs) \<times> (unat ` set ?ys)"
      by (auto simp: image_iff) force+
    then show ?thesis unfolding rx(3) ry(3) by auto
  qed
  obtain d' where d': "foldF (\<lambda>(xx, yy). setPixel xx yy ?c) ?ps (img, err @ [EraseOnly32]) =
        Inr (img\<lparr>data := d'\<rparr>, err @ [EraseOnly32])"
    "length d' = length (data img)"
    "\<And>x' y' k. x' < unat (width (bmp_info_header img)) \<Longrightarrow>
        y' < unat (height (bmp_info_header img)) \<Longrightarrow> k < unat (channels img) \<Longrightarrow>
        byte_of (img\<lparr>data := d'\<rparr>) x' y' k =
          (if (x', y') \<in> (\<lambda>(a, b). (unat a, unat b)) ` set ?ps then color_bytes ?c ! k
           else byte_of img x' y' k)"
    using drawPixels_bytes [OF ok inside, of ?ps ?c "err @ [EraseOnly32]"] by blast
  have zero: "color_bytes ?c ! k = 0" if "k < 3" for k
    using that by (auto simp: color_bytes_def nth_Cons split: nat.splits)
  show ?thesis
  proof (intro exI [of _ d'] conjI allI impI)
    show "eraseRegion x y w h (img, err) = Inr (img\<lparr>data := d'\<rparr>, err @ [EraseOnly32])"
      using loops d'(1) by simp
    show "length d' = length (data img)" by (rule d'(2))
  next
    fix x' y' k
    assume b: "x' < unat (width (bmp_info_header img))"
      "y' < unat (height (bmp_info_header img))" "k < (3::nat)"
    then have "k < unat (channels img)" using ch by simp
    from d'(3) [OF b(1,2) this] show "byte_of (img\<lparr>data := d'\<rparr>) x' y' k =
        (if unat x \<le> x' \<and> x' < unat x + unat w \<and> unat y \<le> y' \<and> y' < unat y + unat h
         then 0 else byte_of img x' y' k)"
      unfolding member using zero [OF b(3)] by simp
  qed
qed

theorem eraseRegion_without_alpha_witness:
  "layout_ok tiny24 \<and> channels tiny24 = 3 \<and>
   unat (0::u32) + unat (1::u32) \<le> unat (width (bmp_info_header tiny24)) \<and>
   unat (0::u32) + unat (1::u32) \<le> unat (height (bmp_info_header tiny24)) \<and>
   (\<exists>d'. eraseRegion 0 0 1 1 (tiny24, []) = Inr (tiny24\<lparr>data := d'\<rparr>, [EraseOnly32]) \<and>
      length d' = 3 \<and> byte_of (tiny24\<lparr>data := d'\<rparr>) 0 0 0 = 0 \<and>
      byte_of (tiny24\<lparr>data := d'\<rparr>) 0 0 1 = 0 \<and> byte_of (tiny24\<lparr>data := d'\<rparr>) 0 0 2 = 0)"
proof -
  have h: "layout_ok tiny24" "channels tiny24 = 3"
    "unat (0::u32) + unat (1::u32) \<le> unat (width (bmp_info_header tiny24))"
    "unat (0::u32) + unat (1::u32) \<le> unat (height (bmp_info_header tiny24))"
    by (simp_all add: layout_ok_def tiny24_def word_sless_alt)
  from eraseRegion_without_alpha [OF h, of "[]"] obtain d' where
    d': "eraseRegion 0 0 1 1 (tiny24, []) = Inr (tiny24\<lparr>data := d'\<rparr>, [EraseOnly32])"
      "length d' = length (data tiny24)"
      "\<forall>x' y' k. x' < unat (width (bmp_info_header tiny24)) \<longrightarrow>
              y' < unat (height (bmp_info_header tiny24)) \<longrightarrow> k < 3 \<longrightarrow>
              byte_of (tiny24\<lparr>data := d'\<rparr>) x' y' k =
                (if unat (0::u32) \<le> x' \<and> x' < unat (0::u32) + unat (1::u32) \<and>
                    unat (0::u32) \<le> y' \<and> y' < unat (0::u32) + unat (1::u32)
                 then 0 else byte_of tiny24 x' y' k)"
    by auto
  have w1: "(0::nat) < unat (width (bmp_info_header tiny24))"
    "(0::nat) < unat (height (bmp_info_header tiny24))" by (simp_all add: tiny24_def)
  have "byte_of (tiny24\<lparr>data := d'\<rparr>) 0 0 0 = 0" "byte_of (tiny24\<lparr>data := d'\<rparr>) 0 0 1 = 0"
    "byte_of (tiny24\<lparr>data := d'\<rparr>) 0 0 2 = 0"
    using d'(3) w1 by simp_all
  moreover have "length d' = 3" using d'(2) by (simp add: tiny24_def)
  ultimately show ?thesis using h d'(1) by blast
qed

text \<open>
  C2 as stated fails: on the 24-bit image of one pixel with bytes 1, 2, 3, erasing the
  region of that pixel prints the message and leaves the bytes 0, 0, 0.
\<close>

theorem eraseRegion_writes_24bit:
  "eraseRegion 0 0 1 1 (tiny24, []) = Inr (tiny24\<lparr>data := [0, 0, 0]\<rparr>, [EraseOnly32])"
  by (simp add: eraseRegion_def for_u32.simps [of 0] for_u32.simps [of 1] drawPixel_def
      setPixel_def pixel_outside_def pixel_pos_def store_def bindF_def tiny24_def Let_def)


section \<open>Exchanging two pixels\<close>

lemma load_in: "unat i < length d \<Longrightarrow> load d i = Inr (d ! unat i)"
  by (simp add: load_def)

lemma store_in: "unat i < length d \<Longrightarrow> store d i v = Inr (d[unat i := v])"
  by (simp add: store_def)

lemma copy_byte_in:
  "unat i < length d \<Longrightarrow> unat j < length d \<Longrightarrow> copy_byte d i j = Inr (d[unat i := d ! unat j])"
  by (simp add: copy_byte_def load_def store_def bindF_def)

lemma bindF_Inr [simp]: "bindF (Inr v) f = f v"
  by (simp add: bindF_def)

lemma swap3_explicit:
  fixes P1 P2 :: nat
  assumes "P1 + 3 \<le> length d" "P2 + 3 \<le> length d" "P1 + 3 \<le> P2 \<or> P2 + 3 \<le> P1"
    and "unat (pos1 + 0) = P1" "unat (pos1 + 1) = P1 + 1" "unat (pos1 + 2) = P1 + 2"
    and "unat (pos2 + 0) = P2" "unat (pos2 + 1) = P2 + 1" "unat (pos2 + 2) = P2 + 2"
  shows "swap_pixels 3 pos1 pos2 d =
      Inr (d[P1 := d ! P2, P1 + 1 := d ! (P2 + 1), P1 + 2 := d ! (P2 + 2),
             P2 := d ! P1, P2 + 1 := d ! (P1 + 1), P2 + 2 := d ! (P1 + 2)])"
proof -
  have ne: "P1 \<noteq> P2" "P1 \<noteq> P2 + 1" "P1 \<noteq> P2 + 2" "P1 + 1 \<noteq> P2" "P1 + 2 \<noteq> P2"
    "P1 + 1 \<noteq> P2 + 2" "P1 + 2 \<noteq> P2 + 1" 
    using assms(3) by linarith+
  have in1: "P1 < length d" "P1 + 1 < length d" "P1 + 2 < length d"
    "P2 < length d" "P2 + 1 < length d" "P2 + 2 < length d"
    using assms(1,2) by linarith+
  show ?thesis
    unfolding swap_pixels_def
    using assms(4-9) in1 ne
    by (simp add: load_in store_in copy_byte_in nth_list_update)
qed


lemma bindF_assoc: "bindF (bindF m f) k = bindF m (\<lambda>v. bindF (f v) k)"
  by (simp add: bindF_def split: sum.splits)

lemma swap_pixels_4:
  "swap_pixels 4 pos1 pos2 d =
     bindF (swap_pixels 3 pos1 pos2 d) (\<lambda>d6.
       bindF (load d6 (pos1 + 3)) (\<lambda>aux_alpha.
       bindF (copy_byte d6 (pos1 + 3) (pos2 + 3)) (\<lambda>d7.
       store d7 (pos2 + 3) aux_alpha)))"
  by (simp add: swap_pixels_def bindF_assoc)

lemma alpha_swap:
  fixes Q1 Q2 :: nat
  assumes "Q1 < length e" "Q2 < length e" "Q1 \<noteq> Q2"
    and "unat q1 = Q1" "unat q2 = Q2"
  shows "bindF (load e q1) (\<lambda>aux_alpha.
           bindF (copy_byte e q1 q2) (\<lambda>d7. store d7 q2 aux_alpha)) =
         Inr (e[Q1 := e ! Q2, Q2 := e ! Q1])"
  using assms by (simp add: load_in store_in copy_byte_in)

lemma swap4_explicit:
  fixes P1 P2 :: nat
  assumes "P1 + 4 \<le> length d" "P2 + 4 \<le> length d" "P1 + 4 \<le> P2 \<or> P2 + 4 \<le> P1"
    and "unat (pos1 + 0) = P1" "unat (pos1 + 1) = P1 + 1" "unat (pos1 + 2) = P1 + 2"
      "unat (pos1 + 3) = P1 + 3"
    and "unat (pos2 + 0) = P2" "unat (pos2 + 1) = P2 + 1" "unat (pos2 + 2) = P2 + 2"
      "unat (pos2 + 3) = P2 + 3"
  shows "swap_pixels 4 pos1 pos2 d =
      Inr (d[P1 := d ! P2, P1 + 1 := d ! (P2 + 1), P1 + 2 := d ! (P2 + 2),
             P2 := d ! P1, P2 + 1 := d ! (P1 + 1), P2 + 2 := d ! (P1 + 2),
             P1 + 3 := d ! (P2 + 3), P2 + 3 := d ! (P1 + 3)])"
proof -
  let ?d6 = "d[P1 := d ! P2, P1 + 1 := d ! (P2 + 1), P1 + 2 := d ! (P2 + 2),
               P2 := d ! P1, P2 + 1 := d ! (P1 + 1), P2 + 2 := d ! (P1 + 2)]"
  have b3: "P1 + 3 \<le> length d" "P2 + 3 \<le> length d" "P1 + 3 \<le> P2 \<or> P2 + 3 \<le> P1"
    using assms(1-3) by linarith+
  have s3: "swap_pixels 3 pos1 pos2 d = Inr ?d6"
    by (rule swap3_explicit [OF b3 assms(4-6) assms(8-10)])
  have ne: "P1 + 3 \<noteq> P1" "P1 + 3 \<noteq> P1 + 1" "P1 + 3 \<noteq> P1 + 2"
    "P1 + 3 \<noteq> P2" "P1 + 3 \<noteq> P2 + 1" "P1 + 3 \<noteq> P2 + 2" "P1 + 3 \<noteq> P2 + 3"
    "P2 + 3 \<noteq> P1" "P2 + 3 \<noteq> P1 + 1" "P2 + 3 \<noteq> P1 + 2"
    "P2 + 3 \<noteq> P2" "P2 + 3 \<noteq> P2 + 1" "P2 + 3 \<noteq> P2 + 2"
    using assms(3) by linarith+
  have in3: "P1 + 3 < length ?d6" "P2 + 3 < length ?d6" using assms(1,2) by simp_all
  have r: "?d6 ! (P1 + 3) = d ! (P1 + 3)" "?d6 ! (P2 + 3) = d ! (P2 + 3)"
    using ne by simp_all
  have "bindF (load ?d6 (pos1 + 3)) (\<lambda>aux_alpha.
          bindF (copy_byte ?d6 (pos1 + 3) (pos2 + 3)) (\<lambda>d7. store d7 (pos2 + 3) aux_alpha)) =
        Inr (?d6[P1 + 3 := ?d6 ! (P2 + 3), P2 + 3 := ?d6 ! (P1 + 3)])"
    by (rule alpha_swap [OF in3 ne(7) assms(7,11)])
  also have "\<dots> = Inr (?d6[P1 + 3 := d ! (P2 + 3), P2 + 3 := d ! (P1 + 3)])"
    by (simp only: r)
  finally have "bindF (load ?d6 (pos1 + 3)) (\<lambda>aux_alpha.
          bindF (copy_byte ?d6 (pos1 + 3) (pos2 + 3)) (\<lambda>d7. store d7 (pos2 + 3) aux_alpha)) =
        Inr (?d6[P1 + 3 := d ! (P2 + 3), P2 + 3 := d ! (P1 + 3)])" .
  then show ?thesis unfolding swap_pixels_4 s3 by simp
qed

lemma swap3_nth:
  fixes P1 P2 :: nat
  assumes "P1 + 3 \<le> length d" "P2 + 3 \<le> length d" "P1 + 3 \<le> P2 \<or> P2 + 3 \<le> P1"
    and "i < length d"
  shows "d[P1 := d ! P2, P1 + 1 := d ! (P2 + 1), P1 + 2 := d ! (P2 + 2),
           P2 := d ! P1, P2 + 1 := d ! (P1 + 1), P2 + 2 := d ! (P1 + 2)] ! i =
         (if P1 \<le> i \<and> i < P1 + 3 then d ! (i - P1 + P2)
          else if P2 \<le> i \<and> i < P2 + 3 then d ! (i - P2 + P1) else d ! i)"
proof -
  have in1: "P1 < length d" "P1 + 1 < length d" "P1 + 2 < length d" "P2 < length d" "P2 + 1 < length d" "P2 + 2 < length d"
    using assms(1,2) by linarith+
  consider (a0) "i = P1" | (a1) "i = P1 + 1" | (a2) "i = P1 + 2"
    | (b0) "i = P2" | (b1) "i = P2 + 1" | (b2) "i = P2 + 2"
    | (other) "i \<noteq> P1" "i \<noteq> P1 + 1" "i \<noteq> P1 + 2" "i \<noteq> P2" "i \<noteq> P2 + 1" "i \<noteq> P2 + 2"
    by blast
  then show ?thesis
  proof cases
    case other
    then have r: "(P1 \<le> i \<and> i < P1 + 3) \<longleftrightarrow> False" "(P2 \<le> i \<and> i < P2 + 3) \<longleftrightarrow> False"
      by auto
    show ?thesis unfolding r using other by simp
  next
    case a0
    have ne: "P2 \<noteq> P1" "P2 + 1 \<noteq> P1" "P2 + 2 \<noteq> P1"
      using assms(3) by linarith+
    have e: "P1 - P1 + P2 = P2" by simp
    have r: "(P1 \<le> P1 \<and> P1 < P1 + 3) \<longleftrightarrow> True" by simp
    show ?thesis unfolding a0 r e if_True using ne in1 by simp
  next
    case a1
    have ne: "P2 \<noteq> P1 + 1" "P2 + 1 \<noteq> P1 + 1" "P2 + 2 \<noteq> P1 + 1"
      using assms(3) by linarith+
    have e: "P1 + 1 - P1 + P2 = P2 + 1" by simp
    have r: "(P1 \<le> P1 + 1 \<and> P1 + 1 < P1 + 3) \<longleftrightarrow> True" by simp
    show ?thesis unfolding a1 r e if_True using ne in1 by simp
  next
    case a2
    have ne: "P2 \<noteq> P1 + 2" "P2 + 1 \<noteq> P1 + 2" "P2 + 2 \<noteq> P1 + 2"
      using assms(3) by linarith+
    have e: "P1 + 2 - P1 + P2 = P2 + 2" by simp
    have r: "(P1 \<le> P1 + 2 \<and> P1 + 2 < P1 + 3) \<longleftrightarrow> True" by simp
    show ?thesis unfolding a2 r e if_True using ne in1 by simp
  next
    case b0
    have ne: "P1 \<noteq> P2" "P1 + 1 \<noteq> P2" "P1 + 2 \<noteq> P2"
      using assms(3) by linarith+
    have e: "P2 - P2 + P1 = P1" by simp
    have r: "(P1 \<le> P2 \<and> P2 < P1 + 3) \<longleftrightarrow> False"
      "(P2 \<le> P2 \<and> P2 < P2 + 3) \<longleftrightarrow> True"
      using assms(3) by auto
    show ?thesis unfolding b0 r e if_True if_False using ne in1 by simp
  next
    case b1
    have ne: "P1 \<noteq> P2 + 1" "P1 + 1 \<noteq> P2 + 1" "P1 + 2 \<noteq> P2 + 1"
      using assms(3) by linarith+
    have e: "P2 + 1 - P2 + P1 = P1 + 1" by simp
    have r: "(P1 \<le> P2 + 1 \<and> P2 + 1 < P1 + 3) \<longleftrightarrow> False"
      "(P2 \<le> P2 + 1 \<and> P2 + 1 < P2 + 3) \<longleftrightarrow> True"
      using assms(3) by auto
    show ?thesis unfolding b1 r e if_True if_False using ne in1 by simp
  next
    case b2
    have ne: "P1 \<noteq> P2 + 2" "P1 + 1 \<noteq> P2 + 2" "P1 + 2 \<noteq> P2 + 2"
      using assms(3) by linarith+
    have e: "P2 + 2 - P2 + P1 = P1 + 2" by simp
    have r: "(P1 \<le> P2 + 2 \<and> P2 + 2 < P1 + 3) \<longleftrightarrow> False"
      "(P2 \<le> P2 + 2 \<and> P2 + 2 < P2 + 3) \<longleftrightarrow> True"
      using assms(3) by auto
    show ?thesis unfolding b2 r e if_True if_False using ne in1 by simp
  qed
qed

lemma swap4_nth:
  fixes P1 P2 :: nat
  assumes "P1 + 4 \<le> length d" "P2 + 4 \<le> length d" "P1 + 4 \<le> P2 \<or> P2 + 4 \<le> P1"
    and "i < length d"
  shows "d[P1 := d ! P2, P1 + 1 := d ! (P2 + 1), P1 + 2 := d ! (P2 + 2),
           P2 := d ! P1, P2 + 1 := d ! (P1 + 1), P2 + 2 := d ! (P1 + 2),
           P1 + 3 := d ! (P2 + 3), P2 + 3 := d ! (P1 + 3)] ! i =
         (if P1 \<le> i \<and> i < P1 + 4 then d ! (i - P1 + P2)
          else if P2 \<le> i \<and> i < P2 + 4 then d ! (i - P2 + P1) else d ! i)"
proof -
  have in1: "P1 < length d" "P1 + 1 < length d" "P1 + 2 < length d" "P1 + 3 < length d" "P2 < length d" "P2 + 1 < length d" "P2 + 2 < length d" "P2 + 3 < length d"
    using assms(1,2) by linarith+
  consider (a0) "i = P1" | (a1) "i = P1 + 1" | (a2) "i = P1 + 2" | (a3) "i = P1 + 3"
    | (b0) "i = P2" | (b1) "i = P2 + 1" | (b2) "i = P2 + 2" | (b3) "i = P2 + 3"
    | (other) "i \<noteq> P1" "i \<noteq> P1 + 1" "i \<noteq> P1 + 2" "i \<noteq> P1 + 3" "i \<noteq> P2" "i \<noteq> P2 + 1" "i \<noteq> P2 + 2" "i \<noteq> P2 + 3"
    by blast
  then show ?thesis
  proof cases
    case other
    then have r: "(P1 \<le> i \<and> i < P1 + 4) \<longleftrightarrow> False" "(P2 \<le> i \<and> i < P2 + 4) \<longleftrightarrow> False"
      by auto
    show ?thesis unfolding r using other by simp
  next
    case a0
    have ne: "P2 \<noteq> P1" "P2 + 1 \<noteq> P1" "P2 + 2 \<noteq> P1" "P2 + 3 \<noteq> P1"
      using assms(3) by linarith+
    have e: "P1 - P1 + P2 = P2" by simp
    have r: "(P1 \<le> P1 \<and> P1 < P1 + 4) \<longleftrightarrow> True" by simp
    show ?thesis unfolding a0 r e if_True using ne in1 by simp
  next
    case a1
    have ne: "P2 \<noteq> P1 + 1" "P2 + 1 \<noteq> P1 + 1" "P2 + 2 \<noteq> P1 + 1" "P2 + 3 \<noteq> P1 + 1"
      using assms(3) by linarith+
    have e: "P1 + 1 - P1 + P2 = P2 + 1" by simp
    have r: "(P1 \<le> P1 + 1 \<and> P1 + 1 < P1 + 4) \<longleftrightarrow> True" by simp
    show ?thesis unfolding a1 r e if_True using ne in1 by simp
  next
    case a2
    have ne: "P2 \<noteq> P1 + 2" "P2 + 1 \<noteq> P1 + 2" "P2 + 2 \<noteq> P1 + 2" "P2 + 3 \<noteq> P1 + 2"
      using assms(3) by linarith+
    have e: "P1 + 2 - P1 + P2 = P2 + 2" by simp
    have r: "(P1 \<le> P1 + 2 \<and> P1 + 2 < P1 + 4) \<longleftrightarrow> True" by simp
    show ?thesis unfolding a2 r e if_True using ne in1 by simp
  next
    case a3
    have ne: "P2 \<noteq> P1 + 3" "P2 + 1 \<noteq> P1 + 3" "P2 + 2 \<noteq> P1 + 3" "P2 + 3 \<noteq> P1 + 3"
      using assms(3) by linarith+
    have e: "P1 + 3 - P1 + P2 = P2 + 3" by simp
    have r: "(P1 \<le> P1 + 3 \<and> P1 + 3 < P1 + 4) \<longleftrightarrow> True" by simp
    show ?thesis unfolding a3 r e if_True using ne in1 by simp
  next
    case b0
    have ne: "P1 \<noteq> P2" "P1 + 1 \<noteq> P2" "P1 + 2 \<noteq> P2" "P1 + 3 \<noteq> P2"
      using assms(3) by linarith+
    have e: "P2 - P2 + P1 = P1" by simp
    have r: "(P1 \<le> P2 \<and> P2 < P1 + 4) \<longleftrightarrow> False"
      "(P2 \<le> P2 \<and> P2 < P2 + 4) \<longleftrightarrow> True"
      using assms(3) by auto
    show ?thesis unfolding b0 r e if_True if_False using ne in1 by simp
  next
    case b1
    have ne: "P1 \<noteq> P2 + 1" "P1 + 1 \<noteq> P2 + 1" "P1 + 2 \<noteq> P2 + 1" "P1 + 3 \<noteq> P2 + 1"
      using assms(3) by linarith+
    have e: "P2 + 1 - P2 + P1 = P1 + 1" by simp
    have r: "(P1 \<le> P2 + 1 \<and> P2 + 1 < P1 + 4) \<longleftrightarrow> False"
      "(P2 \<le> P2 + 1 \<and> P2 + 1 < P2 + 4) \<longleftrightarrow> True"
      using assms(3) by auto
    show ?thesis unfolding b1 r e if_True if_False using ne in1 by simp
  next
    case b2
    have ne: "P1 \<noteq> P2 + 2" "P1 + 1 \<noteq> P2 + 2" "P1 + 2 \<noteq> P2 + 2" "P1 + 3 \<noteq> P2 + 2"
      using assms(3) by linarith+
    have e: "P2 + 2 - P2 + P1 = P1 + 2" by simp
    have r: "(P1 \<le> P2 + 2 \<and> P2 + 2 < P1 + 4) \<longleftrightarrow> False"
      "(P2 \<le> P2 + 2 \<and> P2 + 2 < P2 + 4) \<longleftrightarrow> True"
      using assms(3) by auto
    show ?thesis unfolding b2 r e if_True if_False using ne in1 by simp
  next
    case b3
    have ne: "P1 \<noteq> P2 + 3" "P1 + 1 \<noteq> P2 + 3" "P1 + 2 \<noteq> P2 + 3" "P1 + 3 \<noteq> P2 + 3"
      using assms(3) by linarith+
    have e: "P2 + 3 - P2 + P1 = P1 + 3" by simp
    have r: "(P1 \<le> P2 + 3 \<and> P2 + 3 < P1 + 4) \<longleftrightarrow> False"
      "(P2 \<le> P2 + 3 \<and> P2 + 3 < P2 + 4) \<longleftrightarrow> True"
      using assms(3) by auto
    show ?thesis unfolding b3 r e if_True if_False using ne in1 by simp
  qed
qed

lemma swap_pixels_nth:
  fixes pos1 pos2 :: u32
  assumes ch: "ch = 3 \<or> ch = 4"
    and f1: "unat pos1 + unat ch \<le> length d" and f2: "unat pos2 + unat ch \<le> length d"
    and len: "length d < 2 ^ 32"
    and disj: "unat pos1 + unat ch \<le> unat pos2 \<or> unat pos2 + unat ch \<le> unat pos1"
  shows "\<exists>d'. swap_pixels ch pos1 pos2 d = Inr d' \<and> length d' = length d \<and>
           (\<forall>i<length d. d' ! i =
              (if unat pos1 \<le> i \<and> i < unat pos1 + unat ch then d ! (i - unat pos1 + unat pos2)
               else if unat pos2 \<le> i \<and> i < unat pos2 + unat ch then d ! (i - unat pos2 + unat pos1)
               else d ! i))"
proof -
  define P1 P2 where "P1 = unat pos1" and "P2 = unat pos2"
  have c3: "3 \<le> unat ch" using ch by auto
  have u1: "unat (pos1 + 0) = P1" "unat (pos1 + 1) = P1 + 1" "unat (pos1 + 2) = P1 + 2"
    using unat_plus_small [of pos1 1] unat_plus_small [of pos1 2] f1 len c3
    by (simp_all add: P1_def)
  have u2: "unat (pos2 + 0) = P2" "unat (pos2 + 1) = P2 + 1" "unat (pos2 + 2) = P2 + 2"
    using unat_plus_small [of pos2 1] unat_plus_small [of pos2 2] f2 len c3
    by (simp_all add: P2_def)
  have u3: "unat (pos1 + 3) = P1 + 3" "unat (pos2 + 3) = P2 + 3" if "ch = 4"
    using unat_plus_small [of pos1 3] unat_plus_small [of pos2 3] f1 f2 len that
    by (simp_all add: P1_def P2_def)
  have b: "P1 + unat ch \<le> length d" "P2 + unat ch \<le> length d"
    "P1 + unat ch \<le> P2 \<or> P2 + unat ch \<le> P1"
    using f1 f2 disj by (simp_all add: P1_def P2_def)
  show ?thesis
  proof (cases "ch = 4")
    case True
    have b4: "P1 + 4 \<le> length d" "P2 + 4 \<le> length d" "P1 + 4 \<le> P2 \<or> P2 + 4 \<le> P1"
      using b True by simp_all
    show ?thesis
      unfolding True P1_def [symmetric] P2_def [symmetric]
        swap4_explicit [OF b4 u1 u3(1) [OF True] u2 u3(2) [OF True]]
      using swap4_nth [OF b4] by simp
  next
    case False
    then have c: "ch = 3" using ch by simp
    have b3: "P1 + 3 \<le> length d" "P2 + 3 \<le> length d" "P1 + 3 \<le> P2 \<or> P2 + 3 \<le> P1"
      using b c by simp_all
    show ?thesis
      unfolding c P1_def [symmetric] P2_def [symmetric] swap3_explicit [OF b3 u1 u2]
      using swap3_nth [OF b3] by simp
  qed
qed

lemma pixel_block:
  fixes C W :: nat
  assumes "x < W" "x' < W" "k < C"
  shows "(C * (y * W + x) \<le> C * (y' * W + x') + k \<and> C * (y' * W + x') + k < C * (y * W + x) + C)
         \<longleftrightarrow> x' = x \<and> y' = y"
proof
  assume r: "C * (y * W + x) \<le> C * (y' * W + x') + k \<and>
             C * (y' * W + x') + k < C * (y * W + x) + C"
  define k' where "k' = C * (y' * W + x') + k - C * (y * W + x)"
  have "C * (y' * W + x') + k = C * (y * W + x) + k'" "k' < C"
    using r unfolding k'_def by linarith+
  then show "x' = x \<and> y' = y"
    using byte_index_unique [OF assms(2,1,3) \<open>k' < C\<close>, of y' y] by simp
next
  assume "x' = x \<and> y' = y"
  then show "C * (y * W + x) \<le> C * (y' * W + x') + k \<and>
             C * (y' * W + x') + k < C * (y * W + x) + C"
    using assms(3) by simp
qed

lemma pixel_blocks_disjoint:
  fixes C W :: nat
  assumes "x1 < W" "x2 < W" "(x1, y1) \<noteq> (x2, y2)"
  shows "C * (y1 * W + x1) + C \<le> C * (y2 * W + x2) \<or> C * (y2 * W + x2) + C \<le> C * (y1 * W + x1)"
proof -
  have "y1 * W + x1 \<noteq> y2 * W + x2"
    using divmod_unique [OF assms(1,2), of y1 y2] assms(3) by auto
  then consider "Suc (y1 * W + x1) \<le> y2 * W + x2" | "Suc (y2 * W + x2) \<le> y1 * W + x1"
    by linarith
  then show ?thesis
  proof cases
    case 1
    then have "C * Suc (y1 * W + x1) \<le> C * (y2 * W + x2)" by (rule mult_le_mono2)
    then show ?thesis by simp
  next
    case 2
    then have "C * Suc (y2 * W + x2) \<le> C * (y1 * W + x1)" by (rule mult_le_mono2)
    then show ?thesis by simp
  qed
qed

lemma pixel_block_bound:
  fixes C W H :: nat
  assumes "x < W" "y < H"
  shows "C * (y * W + x) + C \<le> C * W * H"
proof -
  have "y * W + x < y * W + W" using assms by simp
  also have "\<dots> = Suc y * W" by simp
  also have "\<dots> \<le> H * W" using assms by (intro mult_le_mono1) simp
  finally have "Suc (y * W + x) \<le> W * H" by (simp add: mult.commute)
  then have "C * Suc (y * W + x) \<le> C * (W * H)" by (rule mult_le_mono2)
  then show ?thesis by (simp add: mult.assoc)
qed

text \<open>Exchanging two different pixels of a buffer, seen pixel by pixel.\<close>

lemma swap_pixels_bytes:
  fixes pos1 pos2 :: u32 and C W H :: nat
  assumes ch: "ch = 3 \<or> ch = 4" and C: "C = unat ch"
    and len: "length d = C * W * H" "C * W * H < 2 ^ 32"
    and in1: "x1 < W" "y1 < H" and in2: "x2 < W" "y2 < H"
    and ne: "(x1, y1) \<noteq> (x2, y2)"
    and p1: "unat pos1 = C * (y1 * W + x1)" and p2: "unat pos2 = C * (y2 * W + x2)"
  shows "\<exists>d'. swap_pixels ch pos1 pos2 d = Inr d' \<and> length d' = length d \<and>
           (\<forall>x y k. x < W \<longrightarrow> y < H \<longrightarrow> k < C \<longrightarrow>
              d' ! (C * (y * W + x) + k) =
                (if (x, y) = (x1, y1) then d ! (C * (y2 * W + x2) + k)
                 else if (x, y) = (x2, y2) then d ! (C * (y1 * W + x1) + k)
                 else d ! (C * (y * W + x) + k)))"
proof -
  let ?P1 = "C * (y1 * W + x1)" and ?P2 = "C * (y2 * W + x2)"
  have f1: "unat pos1 + unat ch \<le> length d"
    using pixel_block_bound [OF in1, of C] len(1) p1 C by simp
  have f2: "unat pos2 + unat ch \<le> length d"
    using pixel_block_bound [OF in2, of C] len(1) p2 C by simp
  have l: "length d < 2 ^ 32" using len by simp
  have disj: "unat pos1 + unat ch \<le> unat pos2 \<or> unat pos2 + unat ch \<le> unat pos1"
    using pixel_blocks_disjoint [OF in1(1) in2(1) ne, of C] p1 p2 C by simp
  obtain d' where d': "swap_pixels ch pos1 pos2 d = Inr d'" "length d' = length d"
    and nth: "\<And>i. i < length d \<Longrightarrow> d' ! i =
              (if ?P1 \<le> i \<and> i < ?P1 + C then d ! (i - ?P1 + ?P2)
               else if ?P2 \<le> i \<and> i < ?P2 + C then d ! (i - ?P2 + ?P1)
               else d ! i)"
    using swap_pixels_nth [OF ch f1 f2 l disj] unfolding p1 p2 C [symmetric] by blast
  have "d' ! (C * (y * W + x) + k) =
          (if (x, y) = (x1, y1) then d ! (?P2 + k)
           else if (x, y) = (x2, y2) then d ! (?P1 + k)
           else d ! (C * (y * W + x) + k))"
    if b: "x < W" "y < H" "k < C" for x y k
  proof -
    let ?i = "C * (y * W + x) + k"
    have i: "?i < length d" using byte_index_bound [OF b] len(1) by simp
    have r1: "(?P1 \<le> ?i \<and> ?i < ?P1 + C) \<longleftrightarrow> (x, y) = (x1, y1)"
      using pixel_block [OF in1(1) b(1) b(3), of y1 y] by simp
    have r2: "(?P2 \<le> ?i \<and> ?i < ?P2 + C) \<longleftrightarrow> (x, y) = (x2, y2)"
      using pixel_block [OF in2(1) b(1) b(3), of y2 y] by simp
    show ?thesis
      unfolding nth [OF i] r1 r2 by (auto simp: add.commute)
  qed
  then show ?thesis using d' by blast
qed

text \<open>
  A loop that exchanges each pixel of a list with its partner under an involution
  \<open>\<pi>\<close>, no pixel being met twice.
\<close>

lemma fold_swaps:
  fixes \<pi> :: "nat \<times> nat \<Rightarrow> nat \<times> nat" and C W H :: nat
  assumes ch: "ch = 3 \<or> ch = 4" and C: "C = unat ch"
    and len: "length d = C * W * H" "C * W * H < 2 ^ 32"
    and invol: "\<And>q. fst q < W \<Longrightarrow> snd q < H \<Longrightarrow> \<pi> (\<pi> q) = q"
    and inside: "\<And>q. fst q < W \<Longrightarrow> snd q < H \<Longrightarrow> fst (\<pi> q) < W \<and> snd (\<pi> q) < H"
    and dist: "distinct qs"
    and left: "\<And>q. q \<in> set qs \<Longrightarrow> fst q < W \<and> snd q < H \<and> \<pi> q \<notin> set qs"
    and body: "\<And>q e. q \<in> set qs \<Longrightarrow> length e = C * W * H \<Longrightarrow>
                 \<exists>pos1 pos2. body q e = swap_pixels ch pos1 pos2 e \<and>
                   unat pos1 = C * (snd q * W + fst q) \<and>
                   unat pos2 = C * (snd (\<pi> q) * W + fst (\<pi> q))"
  shows "\<exists>d'. foldF body qs d = Inr d' \<and> length d' = length d \<and>
           (\<forall>q k. fst q < W \<longrightarrow> snd q < H \<longrightarrow> k < C \<longrightarrow>
              d' ! (C * (snd q * W + fst q) + k) =
                (let q' = (if q \<in> set qs \<or> \<pi> q \<in> set qs then \<pi> q else q)
                 in d ! (C * (snd q' * W + fst q') + k)))"
proof -
  define I where "I pre e \<longleftrightarrow> length e = length d \<and>
     (\<forall>q k. fst q < W \<longrightarrow> snd q < H \<longrightarrow> k < C \<longrightarrow>
        e ! (C * (snd q * W + fst q) + k) =
          (let q' = (if q \<in> set pre \<or> \<pi> q \<in> set pre then \<pi> q else q)
           in d ! (C * (snd q' * W + fst q') + k)))" for pre :: "(nat \<times> nat) list" and e
  have "\<exists>d'. foldF body qs d = Inr d' \<and> I qs d'"
  proof (rule foldF_invariant [where I = I])
    show "I [] d" by (simp add: I_def Let_def)
  next
    fix pre q post e
    assume split: "qs = pre @ q # post" and inv: "I pre e"
    have q: "q \<in> set qs" using split by simp
    have qpre: "q \<notin> set pre" using dist split by simp
    have qin: "fst q < W" "snd q < H" and pq: "\<pi> q \<notin> set qs" using left [OF q] by simp_all
    have pin: "fst (\<pi> q) < W" "snd (\<pi> q) < H" using inside [OF qin] by simp_all
    have ppre: "\<pi> q \<notin> set pre" using pq split by simp
    have neq: "q \<noteq> \<pi> q" using pq q by auto
    have le: "length e = C * W * H" using inv len(1) by (simp add: I_def)
    obtain pos1 pos2 where b: "body q e = swap_pixels ch pos1 pos2 e"
      "unat pos1 = C * (snd q * W + fst q)" "unat pos2 = C * (snd (\<pi> q) * W + fst (\<pi> q))"
      using body [OF q le] by blast
    have ne': "(fst q, snd q) \<noteq> (fst (\<pi> q), snd (\<pi> q))" using neq by (simp add: prod_eq_iff)
    obtain e' where e': "swap_pixels ch pos1 pos2 e = Inr e'" "length e' = length e"
      and sw: "\<And>x y k. x < W \<Longrightarrow> y < H \<Longrightarrow> k < C \<Longrightarrow>
          e' ! (C * (y * W + x) + k) =
            (if (x, y) = (fst q, snd q) then e ! (C * (snd (\<pi> q) * W + fst (\<pi> q)) + k)
             else if (x, y) = (fst (\<pi> q), snd (\<pi> q)) then e ! (C * (snd q * W + fst q) + k)
             else e ! (C * (y * W + x) + k))"
      using swap_pixels_bytes [OF ch C le len(2) qin pin ne' b(2,3)] by blast
    have old: "e ! (C * (snd p * W + fst p) + k) =
          (let q' = (if p \<in> set pre \<or> \<pi> p \<in> set pre then \<pi> p else p)
           in d ! (C * (snd q' * W + fst q') + k))"
      if "fst p < W" "snd p < H" "k < C" for p k
      using inv that by (simp add: I_def)
    have "I (pre @ [q]) e'"
      unfolding I_def
    proof (intro conjI allI impI)
      show "length e' = length d" using e'(2) inv by (simp add: I_def)
    next
      fix p k
      assume p: "fst p < W" "snd p < H" "k < C"
      have ppin: "fst (\<pi> p) < W" "snd (\<pi> p) < H" using inside [OF p(1,2)] by simp_all
      consider "p = q" | "p = \<pi> q" | "p \<noteq> q" "p \<noteq> \<pi> q" by blast
      then show "e' ! (C * (snd p * W + fst p) + k) =
          (let q' = (if p \<in> set (pre @ [q]) \<or> \<pi> p \<in> set (pre @ [q]) then \<pi> p else p)
           in d ! (C * (snd q' * W + fst q') + k))"
      proof cases
        case 1
        have "e' ! (C * (snd p * W + fst p) + k) = e ! (C * (snd (\<pi> q) * W + fst (\<pi> q)) + k)"
          using sw [OF p] 1 by simp
        also have "\<dots> = d ! (C * (snd (\<pi> q) * W + fst (\<pi> q)) + k)"
          using old [OF pin p(3)] ppre qpre invol [OF qin] by (simp add: Let_def)
        finally show ?thesis using 1 by (simp add: Let_def)
      next
        case 2
        have "e' ! (C * (snd p * W + fst p) + k) = e ! (C * (snd q * W + fst q) + k)"
          using sw [OF p] 2 neq by (auto simp: prod_eq_iff)
        also have "\<dots> = d ! (C * (snd q * W + fst q) + k)"
          using old [OF qin p(3)] ppre qpre by (simp add: Let_def)
        finally show ?thesis using 2 invol [OF qin] by (simp add: Let_def)
      next
        case 3
        have "\<pi> p \<noteq> q"
        proof
          assume "\<pi> p = q"
          then have "\<pi> (\<pi> p) = \<pi> q" by simp
          then show False using invol [OF p(1,2)] 3(2) by simp
        qed
        moreover have "e' ! (C * (snd p * W + fst p) + k) = e ! (C * (snd p * W + fst p) + k)"
          using sw [OF p] 3 by (auto simp: prod_eq_iff)
        ultimately show ?thesis using old [OF p] 3 by (simp add: Let_def)
      qed
    qed
    then show "\<exists>s'. body q e = Inr s' \<and> I (pre @ [q]) s'" using b(1) e'(1) by simp
  qed
  then show ?thesis unfolding I_def by blast
qed

section \<open>The flips\<close>

lemma mirror_word:
  fixes w x :: u32
  assumes "x < w"
  shows "unat (w - 1 - x) = unat w - 1 - unat x" and "w - 1 - x < w"
proof -
  have w0: "w \<noteq> 0" using assms by auto
  then have u1: "unat (w - 1) = unat w - 1" by (simp add: unat_minus_one)
  have xl: "unat x < unat w" using assms by (simp add: word_less_nat_alt)
  then have "x \<le> w - 1" using u1 by (simp add: word_le_nat_alt)
  then have "unat (w - 1 - x) = unat (w - 1) - unat x" by (rule unat_sub)
  then show e: "unat (w - 1 - x) = unat w - 1 - unat x" using u1 by simp
  show "w - 1 - x < w" using e xl by (simp add: word_less_nat_alt)
qed

lemma of_nat_less_u32:
  fixes w :: u32
  assumes "i < unat w"
  shows "unat (of_nat i :: u32) = i" and "(of_nat i :: u32) < w"
proof -
  have "unat w < 2 ^ 32" using unsigned_less [of w] by simp
  then show e: "unat (of_nat i :: u32) = i" using assms by (intro unat_of_nat_u32) linarith
  show "(of_nat i :: u32) < w" using e assms by (simp add: word_less_nat_alt)
qed

lemma layout_ok_facts:
  assumes "layout_ok img"
  shows "channels img = 3 \<or> channels img = 4"
    and "0 < unat (channels img)"
    and "length (data img) =
           unat (channels img) * unat (width (bmp_info_header img)) * unat (height (bmp_info_header img))"
    and "unat (channels img) * unat (width (bmp_info_header img)) * unat (height (bmp_info_header img)) < 2 ^ 32"
  using assms by (auto simp: layout_ok_def)

lemma FlipX_bytes:
  assumes ok: "layout_ok img"
  shows "\<exists>d'. FlipX (img, err) = Inr (img\<lparr>data := d'\<rparr>, err) \<and>
           length d' = length (data img) \<and>
           (\<forall>x y k. x < unat (width (bmp_info_header img)) \<longrightarrow>
              y < unat (height (bmp_info_header img)) \<longrightarrow> k < unat (channels img) \<longrightarrow>
              byte_of (img\<lparr>data := d'\<rparr>) x y k =
                byte_of img (unat (width (bmp_info_header img)) - 1 - x) y k)"
proof -
  let ?w = "width (bmp_info_header img)" and ?h = "height (bmp_info_header img)"
  let ?ch = "channels img"
  define W H C where "W = unat ?w" and "H = unat ?h" and "C = unat ?ch"
  note f = layout_ok_facts [OF ok, folded W_def H_def C_def]
  define B where "B y x = swap_pixels ?ch (?ch * (y * ?w + x)) (?ch * (y * ?w + ?w - 1 - x))"
    for y x :: u32
  define \<pi> where "\<pi> q = (W - 1 - fst q, snd q)" for q :: "nat \<times> nat"
  define qs where "qs = map prod.swap (List.product [0..<H] [0..<W div 2])"
  define body where "body q = B (of_nat (snd q)) (of_nat (fst q))" for q :: "nat \<times> nat"
  have w2: "unat (?w div 2) = W div 2" by (simp add: unat_div W_def)
  have inner: "for_u32 0 (?w div 2) (B y) = foldF (\<lambda>i. B y (of_nat i)) [0..<W div 2]" for y
    by (rule ext) (simp add: for_u32_foldF w2 foldF_map)
  have "for_u32 0 ?h (\<lambda>y. for_u32 0 (?w div 2) (B y)) (data img) =
        foldF (\<lambda>j. foldF (\<lambda>i. B (of_nat j) (of_nat i)) [0..<W div 2]) [0..<H] (data img)"
    by (simp add: for_u32_foldF inner foldF_map H_def)
  also have "\<dots> = foldF (\<lambda>(j, i). B (of_nat j) (of_nat i)) (List.product [0..<H] [0..<W div 2])
                     (data img)"
    by (rule foldF_product)
  also have "\<dots> = foldF body qs (data img)"
    by (simp add: qs_def body_def foldF_map case_prod_unfold)
  finally have loops: "for_u32 0 ?h (\<lambda>y. for_u32 0 (?w div 2) (B y)) (data img) =
        foldF body qs (data img)" .
  have mem: "q \<in> set qs \<longleftrightarrow> fst q < W div 2 \<and> snd q < H" for q
    by (cases q) (auto simp: qs_def)
  have dist: "distinct qs"
    unfolding qs_def by (simp add: distinct_map distinct_product)
  have "\<exists>d'. foldF body qs (data img) = Inr d' \<and> length d' = length (data img) \<and>
           (\<forall>q k. fst q < W \<longrightarrow> snd q < H \<longrightarrow> k < C \<longrightarrow>
              d' ! (C * (snd q * W + fst q) + k) =
                (let q' = (if q \<in> set qs \<or> \<pi> q \<in> set qs then \<pi> q else q)
                 in data img ! (C * (snd q' * W + fst q') + k)))"
  proof (rule fold_swaps [where ch = ?ch and \<pi> = \<pi>])
    show "?ch = 3 \<or> ?ch = 4" by (rule f(1))
    show "C = unat ?ch" by (simp add: C_def)
    show "length (data img) = C * W * H" by (rule f(3))
    show "C * W * H < 2 ^ 32" by (rule f(4))
    show "distinct qs" by (rule dist)
  next
    fix q :: "nat \<times> nat" assume "fst q < W" "snd q < H"
    then show "\<pi> (\<pi> q) = q" "fst (\<pi> q) < W \<and> snd (\<pi> q) < H"
      by (auto simp: \<pi>_def prod_eq_iff)
  next
    fix q assume "q \<in> set qs"
    then show "fst q < W \<and> snd q < H \<and> \<pi> q \<notin> set qs"
      unfolding mem by (auto simp: \<pi>_def)
  next
    fix q and e :: "u8 list" assume q: "q \<in> set qs" and "length e = C * W * H"
    have i: "fst q < W div 2" "snd q < H" using q unfolding mem by simp_all
    then have iW: "fst q < unat ?w" "snd q < unat ?h" by (simp_all add: W_def H_def)
    note x = of_nat_less_u32 [OF iW(1)] and y = of_nat_less_u32 [OF iW(2)]
    note m = mirror_word [OF x(2)]
    have fit: "unat ?ch * unat ?w * unat ?h < 2 ^ 32" using f(4) by (simp add: W_def H_def C_def)
    have c0: "0 < unat ?ch" using f(2) by (simp add: C_def)
    have p1: "unat (?ch * (of_nat (snd q) * ?w + of_nat (fst q))) = C * (snd q * W + fst q)"
      using pixel_index(1) [OF fit x(2) y(2) c0] x(1) y(1) by (simp add: W_def C_def)
    have "?ch * (of_nat (snd q) * ?w + ?w - 1 - of_nat (fst q)) =
          ?ch * (of_nat (snd q) * ?w + (?w - 1 - of_nat (fst q)))"
      by (simp add: algebra_simps)
    then have p2: "unat (?ch * (of_nat (snd q) * ?w + ?w - 1 - of_nat (fst q))) =
          C * (snd (\<pi> q) * W + fst (\<pi> q))"
      using pixel_index(1) [OF fit m(2) y(2) c0] m(1) x(1) y(1)
      by (simp add: W_def C_def \<pi>_def)
    show "\<exists>pos1 pos2. body q e = swap_pixels ?ch pos1 pos2 e \<and>
            unat pos1 = C * (snd q * W + fst q) \<and>
            unat pos2 = C * (snd (\<pi> q) * W + fst (\<pi> q))"
      unfolding body_def B_def using p1 p2 by blast
  qed
  then obtain d' where d': "foldF body qs (data img) = Inr d'" "length d' = length (data img)"
    and nth: "\<And>q k. fst q < W \<Longrightarrow> snd q < H \<Longrightarrow> k < C \<Longrightarrow>
              d' ! (C * (snd q * W + fst q) + k) =
                (let q' = (if q \<in> set qs \<or> \<pi> q \<in> set qs then \<pi> q else q)
                 in data img ! (C * (snd q' * W + fst q') + k))"
    by blast
  have Bfun: "B = (\<lambda>y x. swap_pixels ?ch (?ch * (y * ?w + x)) (?ch * (y * ?w + ?w - 1 - x)))"
    by (intro ext) (simp add: B_def)
  have flip: "FlipX (img, err) = Inr (img\<lparr>data := d'\<rparr>, err)"
    using loops d'(1) unfolding Bfun by (simp add: FlipX_def Let_def)
  have "byte_of (img\<lparr>data := d'\<rparr>) x y k = byte_of img (W - 1 - x) y k"
    if b: "x < W" "y < H" "k < C" for x y k
  proof -
    have "(if (x, y) \<in> set qs \<or> \<pi> (x, y) \<in> set qs then \<pi> (x, y) else (x, y)) = \<pi> (x, y)"
      using b unfolding mem by (auto simp: \<pi>_def)
    then show ?thesis
      using nth [of "(x, y)" k] b by (simp add: byte_of_def W_def C_def \<pi>_def Let_def)
  qed
  then show ?thesis using flip d'(2) unfolding W_def H_def C_def by blast
qed

lemma FlipY_bytes:
  assumes ok: "layout_ok img"
  shows "\<exists>d'. FlipY (img, err) = Inr (img\<lparr>data := d'\<rparr>, err) \<and>
           length d' = length (data img) \<and>
           (\<forall>x y k. x < unat (width (bmp_info_header img)) \<longrightarrow>
              y < unat (height (bmp_info_header img)) \<longrightarrow> k < unat (channels img) \<longrightarrow>
              byte_of (img\<lparr>data := d'\<rparr>) x y k =
                byte_of img x (unat (height (bmp_info_header img)) - 1 - y) k)"
proof -
  let ?w = "width (bmp_info_header img)" and ?h = "height (bmp_info_header img)"
  let ?ch = "channels img"
  define W H C where "W = unat ?w" and "H = unat ?h" and "C = unat ?ch"
  note f = layout_ok_facts [OF ok, folded W_def H_def C_def]
  have hpos: "0 < sint ?h" using ok by (simp add: layout_ok_def word_sless_alt)
  have h1: "int32 (sint ?h - 1) = Inr (sint ?h - 1)"
    using hpos sint_lt [of ?h] by (simp add: int32_def)
  have h1w: "(word_of_int (sint ?h - 1) :: u32) = ?h - 1" by simp
  define B where "B x y = swap_pixels ?ch (?ch * (y * ?w + x)) (?ch * ((?h - 1 - y) * ?w + x))"
    for x y :: u32
  have Bfun: "(\<lambda>x y d. bindF (int32 (sint ?h - 1)) (\<lambda>h1.
                 swap_pixels ?ch (?ch * (y * ?w + x)) (?ch * ((word_of_int h1 - y) * ?w + x)) d)) = B"
    by (intro ext) (simp only: B_def h1 bindF_Inr h1w)
  define \<pi> where "\<pi> q = (fst q, H - 1 - snd q)" for q :: "nat \<times> nat"
  define qs where "qs = List.product [0..<W] [0..<H div 2]"
  define body where "body q = B (of_nat (fst q)) (of_nat (snd q))" for q :: "nat \<times> nat"
  have h2: "unat (?h div 2) = H div 2" by (simp add: unat_div H_def)
  have inner: "for_u32 0 (?h div 2) (B x) = foldF (\<lambda>j. B x (of_nat j)) [0..<H div 2]" for x
    by (rule ext) (simp add: for_u32_foldF h2 foldF_map)
  have "for_u32 0 ?w (\<lambda>x. for_u32 0 (?h div 2) (B x)) (data img) =
        foldF (\<lambda>i. foldF (\<lambda>j. B (of_nat i) (of_nat j)) [0..<H div 2]) [0..<W] (data img)"
    by (simp add: for_u32_foldF inner foldF_map W_def)
  also have "\<dots> = foldF (\<lambda>(i, j). B (of_nat i) (of_nat j)) (List.product [0..<W] [0..<H div 2])
                     (data img)"
    by (rule foldF_product)
  also have "\<dots> = foldF body qs (data img)"
    by (simp add: qs_def body_def [abs_def] case_prod_unfold)
  finally have loops: "for_u32 0 ?w (\<lambda>x. for_u32 0 (?h div 2) (B x)) (data img) =
        foldF body qs (data img)" .
  have mem: "q \<in> set qs \<longleftrightarrow> fst q < W \<and> snd q < H div 2" for q
    by (cases q) (auto simp: qs_def)
  have dist: "distinct qs"
    unfolding qs_def by (simp add: distinct_product)
  have "\<exists>d'. foldF body qs (data img) = Inr d' \<and> length d' = length (data img) \<and>
           (\<forall>q k. fst q < W \<longrightarrow> snd q < H \<longrightarrow> k < C \<longrightarrow>
              d' ! (C * (snd q * W + fst q) + k) =
                (let q' = (if q \<in> set qs \<or> \<pi> q \<in> set qs then \<pi> q else q)
                 in data img ! (C * (snd q' * W + fst q') + k)))"
  proof (rule fold_swaps [where ch = ?ch and \<pi> = \<pi>])
    show "?ch = 3 \<or> ?ch = 4" by (rule f(1))
    show "C = unat ?ch" by (simp add: C_def)
    show "length (data img) = C * W * H" by (rule f(3))
    show "C * W * H < 2 ^ 32" by (rule f(4))
    show "distinct qs" by (rule dist)
  next
    fix q :: "nat \<times> nat" assume "fst q < W" "snd q < H"
    then show "\<pi> (\<pi> q) = q" "fst (\<pi> q) < W \<and> snd (\<pi> q) < H"
      by (auto simp: \<pi>_def prod_eq_iff)
  next
    fix q assume "q \<in> set qs"
    then show "fst q < W \<and> snd q < H \<and> \<pi> q \<notin> set qs"
      unfolding mem by (auto simp: \<pi>_def)
  next
    fix q and e :: "u8 list" assume q: "q \<in> set qs" and "length e = C * W * H"
    have i: "fst q < W" "snd q < H div 2" using q unfolding mem by simp_all
    then have iW: "fst q < unat ?w" "snd q < unat ?h" by (simp_all add: W_def H_def)
    note x = of_nat_less_u32 [OF iW(1)] and y = of_nat_less_u32 [OF iW(2)]
    note m = mirror_word [OF y(2)]
    have fit: "unat ?ch * unat ?w * unat ?h < 2 ^ 32" using f(4) by (simp add: W_def H_def C_def)
    have c0: "0 < unat ?ch" using f(2) by (simp add: C_def)
    have p1: "unat (?ch * (of_nat (snd q) * ?w + of_nat (fst q))) = C * (snd q * W + fst q)"
      using pixel_index(1) [OF fit x(2) y(2) c0] x(1) y(1) by (simp add: W_def C_def)
    have p2: "unat (?ch * ((?h - 1 - of_nat (snd q)) * ?w + of_nat (fst q))) =
          C * (snd (\<pi> q) * W + fst (\<pi> q))"
      using pixel_index(1) [OF fit x(2) m(2) c0] m(1) x(1) y(1)
      by (simp add: W_def C_def H_def \<pi>_def)
    show "\<exists>pos1 pos2. body q e = swap_pixels ?ch pos1 pos2 e \<and>
            unat pos1 = C * (snd q * W + fst q) \<and>
            unat pos2 = C * (snd (\<pi> q) * W + fst (\<pi> q))"
      unfolding body_def B_def using p1 p2 by blast
  qed
  then obtain d' where d': "foldF body qs (data img) = Inr d'" "length d' = length (data img)"
    and nth: "\<And>q k. fst q < W \<Longrightarrow> snd q < H \<Longrightarrow> k < C \<Longrightarrow>
              d' ! (C * (snd q * W + fst q) + k) =
                (let q' = (if q \<in> set qs \<or> \<pi> q \<in> set qs then \<pi> q else q)
                 in data img ! (C * (snd q' * W + fst q') + k))"
    by blast
  have flip: "FlipY (img, err) = Inr (img\<lparr>data := d'\<rparr>, err)"
    using loops d'(1) unfolding Bfun [symmetric] by (simp add: FlipY_def Let_def)
  have "byte_of (img\<lparr>data := d'\<rparr>) x y k = byte_of img x (H - 1 - y) k"
    if b: "x < W" "y < H" "k < C" for x y k
  proof -
    have "(if (x, y) \<in> set qs \<or> \<pi> (x, y) \<in> set qs then \<pi> (x, y) else (x, y)) = \<pi> (x, y)"
      using b unfolding mem by (auto simp: \<pi>_def)
    then show ?thesis
      using nth [of "(x, y)" k] b by (simp add: byte_of_def W_def C_def \<pi>_def Let_def)
  qed
  then show ?thesis using flip d'(2) unfolding W_def H_def C_def by blast
qed

lemma buffer_eqI:
  fixes C W H :: nat
  assumes "length d = C * W * H" "length d' = C * W * H" "0 < C" "0 < W"
    and "\<And>x y k. x < W \<Longrightarrow> y < H \<Longrightarrow> k < C \<Longrightarrow>
           d' ! (C * (y * W + x) + k) = d ! (C * (y * W + x) + k)"
  shows "d' = d"
proof (rule nth_equalityI)
  show "length d' = length d" using assms(1,2) by simp
next
  fix i assume "i < length d'"
  then have i: "i < C * (W * H)" using assms(2) by (simp add: mult.assoc)
  define k p x y where "k = i mod C" and "p = i div C" and "x = p mod W" and "y = p div W"
  have k: "k < C" using assms(3) by (simp add: k_def)
  have p: "p < W * H" using i assms(3) unfolding p_def
    by (simp add: less_mult_imp_div_less mult.commute)
  have x: "x < W" using assms(4) by (simp add: x_def)
  have y: "y < H" using p assms(4) unfolding y_def
    by (simp add: less_mult_imp_div_less mult.commute)
  have "i = C * p + k" by (simp add: k_def p_def)
  moreover have "p = y * W + x" by (simp add: x_def y_def)
  ultimately have "i = C * (y * W + x) + k" by simp
  then show "d' ! i = d ! i" using assms(5) [OF x y k] by simp
qed

lemma flip_back:
  assumes ok: "layout_ok img"
    and l1: "length d1 = length (data img)" and l2: "length d2 = length (data img)"
    and m: "\<And>x y. x < unat (width (bmp_info_header img)) \<Longrightarrow>
                y < unat (height (bmp_info_header img)) \<Longrightarrow>
                fst (\<mu> (x, y)) < unat (width (bmp_info_header img)) \<and>
                snd (\<mu> (x, y)) < unat (height (bmp_info_header img)) \<and> \<mu> (\<mu> (x, y)) = (x, y)"
    and b1: "\<And>x y k. x < unat (width (bmp_info_header img)) \<Longrightarrow>
                y < unat (height (bmp_info_header img)) \<Longrightarrow> k < unat (channels img) \<Longrightarrow>
                byte_of (img\<lparr>data := d1\<rparr>) x y k = byte_of img (fst (\<mu> (x, y))) (snd (\<mu> (x, y))) k"
    and b2: "\<And>x y k. x < unat (width (bmp_info_header img)) \<Longrightarrow>
                y < unat (height (bmp_info_header img)) \<Longrightarrow> k < unat (channels img) \<Longrightarrow>
                byte_of (img\<lparr>data := d2\<rparr>) x y k =
                  byte_of (img\<lparr>data := d1\<rparr>) (fst (\<mu> (x, y))) (snd (\<mu> (x, y))) k"
  shows "d2 = data img"
proof -
  let ?W = "unat (width (bmp_info_header img))" and ?H = "unat (height (bmp_info_header img))"
  let ?C = "unat (channels img)"
  note f = layout_ok_facts [OF ok]
  have wpos: "0 < ?W"
  proof -
    have "0 < sint (width (bmp_info_header img))"
      using ok by (simp add: layout_ok_def word_sless_alt)
    then have "width (bmp_info_header img) \<noteq> 0" by auto
    then show ?thesis by (simp add: unat_gt_0)
  qed
  show ?thesis
  proof (rule buffer_eqI [where C = ?C and W = ?W and H = ?H])
    show "length (data img) = ?C * ?W * ?H" by (rule f(3))
    show "length d2 = ?C * ?W * ?H" using l2 f(3) by simp
    show "0 < ?C" by (rule f(2))
    show "0 < ?W" by (rule wpos)
  next
    fix x y k assume b: "x < ?W" "y < ?H" "k < ?C"
    note mm = m [OF b(1,2)]
    have "byte_of (img\<lparr>data := d2\<rparr>) x y k =
          byte_of (img\<lparr>data := d1\<rparr>) (fst (\<mu> (x, y))) (snd (\<mu> (x, y))) k"
      by (rule b2 [OF b])
    also have "\<dots> = byte_of img (fst (\<mu> (\<mu> (x, y)))) (snd (\<mu> (\<mu> (x, y)))) k"
      using b1 [of "fst (\<mu> (x, y))" "snd (\<mu> (x, y))" k] mm b(3) by simp
    also have "\<dots> = byte_of img x y k" using mm by simp
    finally show "d2 ! (?C * (y * ?W + x) + k) = data img ! (?C * (y * ?W + x) + k)"
      by (simp add: byte_of_def)
  qed
qed

text \<open>
  C9. On an image that satisfies the layout invariant, \<open>FlipX\<close> succeeds without a
  diagnostic and a second \<open>FlipX\<close> gives back the image it started from, the whole
  buffer (alpha bytes included) and the headers; the same holds for \<open>FlipY\<close>.
\<close>

theorem flip_twice:
  assumes ok: "layout_ok img"
  shows "(\<exists>img1. FlipX (img, err) = Inr (img1, err) \<and> FlipX (img1, err) = Inr (img, err)) \<and>
         (\<exists>img1. FlipY (img, err) = Inr (img1, err) \<and> FlipY (img1, err) = Inr (img, err))"
proof
  let ?W = "unat (width (bmp_info_header img))" and ?H = "unat (height (bmp_info_header img))"
  obtain d1 where d1: "FlipX (img, err) = Inr (img\<lparr>data := d1\<rparr>, err)"
      "length d1 = length (data img)"
    and b1: "\<And>x y k. x < ?W \<Longrightarrow> y < ?H \<Longrightarrow> k < unat (channels img) \<Longrightarrow>
        byte_of (img\<lparr>data := d1\<rparr>) x y k = byte_of img (?W - 1 - x) y k"
    using FlipX_bytes [OF ok, of err] by blast
  let ?img1 = "img\<lparr>data := d1\<rparr>"
  have ok1: "layout_ok ?img1" using ok d1(2) by (simp add: layout_ok_data)
  obtain d2 where d2: "FlipX (?img1, err) = Inr (?img1\<lparr>data := d2\<rparr>, err)"
      "length d2 = length (data ?img1)"
    and b2: "\<And>x y k. x < ?W \<Longrightarrow> y < ?H \<Longrightarrow> k < unat (channels img) \<Longrightarrow>
        byte_of (?img1\<lparr>data := d2\<rparr>) x y k = byte_of ?img1 (?W - 1 - x) y k"
    using FlipX_bytes [OF ok1, of err] by auto
  have "d2 = data img"
  proof (rule flip_back [OF ok d1(2), where \<mu> = "\<lambda>q. (?W - 1 - fst q, snd q)"])
    show "length d2 = length (data img)" using d2(2) d1(2) by simp
  qed (use b1 b2 in auto)
  then have "?img1\<lparr>data := d2\<rparr> = img" by simp
  then show "\<exists>img1. FlipX (img, err) = Inr (img1, err) \<and> FlipX (img1, err) = Inr (img, err)"
    using d1(1) d2(1) by (intro exI [of _ ?img1]) simp
next
  let ?W = "unat (width (bmp_info_header img))" and ?H = "unat (height (bmp_info_header img))"
  obtain d1 where d1: "FlipY (img, err) = Inr (img\<lparr>data := d1\<rparr>, err)"
      "length d1 = length (data img)"
    and b1: "\<And>x y k. x < ?W \<Longrightarrow> y < ?H \<Longrightarrow> k < unat (channels img) \<Longrightarrow>
        byte_of (img\<lparr>data := d1\<rparr>) x y k = byte_of img x (?H - 1 - y) k"
    using FlipY_bytes [OF ok, of err] by blast
  let ?img1 = "img\<lparr>data := d1\<rparr>"
  have ok1: "layout_ok ?img1" using ok d1(2) by (simp add: layout_ok_data)
  obtain d2 where d2: "FlipY (?img1, err) = Inr (?img1\<lparr>data := d2\<rparr>, err)"
      "length d2 = length (data ?img1)"
    and b2: "\<And>x y k. x < ?W \<Longrightarrow> y < ?H \<Longrightarrow> k < unat (channels img) \<Longrightarrow>
        byte_of (?img1\<lparr>data := d2\<rparr>) x y k = byte_of ?img1 x (?H - 1 - y) k"
    using FlipY_bytes [OF ok1, of err] by auto
  have "d2 = data img"
  proof (rule flip_back [OF ok d1(2), where \<mu> = "\<lambda>q. (fst q, ?H - 1 - snd q)"])
    show "length d2 = length (data img)" using d2(2) d1(2) by simp
  qed (use b1 b2 in auto)
  then have "?img1\<lparr>data := d2\<rparr> = img" by simp
  then show "\<exists>img1. FlipY (img, err) = Inr (img1, err) \<and> FlipY (img1, err) = Inr (img, err)"
    using d1(1) d2(1) by (intro exI [of _ ?img1]) simp
qed

theorem flip_twice_witness:
  "layout_ok sample32 \<and>
   (\<exists>img1. FlipX (sample32, []) = Inr (img1, []) \<and> FlipX (img1, []) = Inr (sample32, [])) \<and>
   (\<exists>img1. FlipY (sample32, []) = Inr (img1, []) \<and> FlipY (img1, []) = Inr (sample32, []))"
proof -
  have h: "layout_ok sample32" by (simp add: layout_ok_def sample32_def word_sless_alt)
  show ?thesis using h flip_twice [OF h, of "[]"] by simp
qed


section \<open>Grey scale\<close>

lemma grey_pixel_bytes:
  fixes pos :: u32 and C W H :: nat
  assumes C3: "3 \<le> C" and len: "length e = C * W * H" "C * W * H < 2 ^ 32"
    and q: "x < W" "y < H" and p: "unat pos = C * (y * W + x)"
    and conv: "f_to_u8 ops (grey_value ops rw gw bw (e ! (C * (y * W + x)))
                 (e ! (C * (y * W + x) + 1)) (e ! (C * (y * W + x) + 2))) = Some gv"
  shows "\<exists>e'. grey_pixel ops rw gw bw pos e = Inr e' \<and> length e' = length e \<and>
           (\<forall>x' y' k. x' < W \<longrightarrow> y' < H \<longrightarrow> k < C \<longrightarrow>
              e' ! (C * (y' * W + x') + k) =
                (if (x', y') = (x, y) \<and> k < 3 then gv else e ! (C * (y' * W + x') + k)))"
proof -
  define P where "P = C * (y * W + x)"
  let ?c = "\<lparr>r = gv, g = gv, b = gv, alpha = gv\<rparr>"
  have fit: "P + C \<le> length e" using pixel_block_bound [OF q, of C] len(1) by (simp add: P_def)
  then have fit3: "P + unat (3::u32) \<le> length e" using C3 by simp
  have l: "length e < 2 ^ 32" using len by simp
  have u: "unat (pos + 0) = P" "unat (pos + 1) = P + 1" "unat (pos + 2) = P + 2"
    using unat_plus_small [of pos 1] unat_plus_small [of pos 2] fit l C3 p
    by (simp_all add: P_def)
  have in3: "P < length e" "P + 1 < length e" "P + 2 < length e" using fit C3 by linarith+
  have e: "grey_pixel ops rw gw bw pos e = Inr (write_px e P 3 ?c)"
    unfolding grey_pixel_def
    using u in3 conv [folded P_def]
    by (simp add: load_in store_in write_px_def)
  have "write_px e P 3 ?c ! (C * (y' * W + x') + k) =
          (if (x', y') = (x, y) \<and> k < 3 then gv else e ! (C * (y' * W + x') + k))"
    if b: "x' < W" "y' < H" "k < C" for x' y' k
  proof -
    let ?i = "C * (y' * W + x') + k"
    have i: "?i < length e" using byte_index_bound [OF b] len(1) by simp
    have blk: "(P \<le> ?i \<and> ?i < P + C) \<longleftrightarrow> x' = x \<and> y' = y"
      unfolding P_def by (rule pixel_block [OF q(1) b(1) b(3)])
    have "write_px e P 3 ?c ! ?i =
          (if P \<le> ?i \<and> ?i < P + unat (3::u32) then color_bytes ?c ! (?i - P) else e ! ?i)"
      by (rule write_px_nth [OF fit3 _ i]) simp
    also have "\<dots> = (if (x', y') = (x, y) \<and> k < 3 then gv else e ! ?i)"
    proof (cases "x' = x \<and> y' = y")
      case True
      then have "?i = P + k" by (simp add: P_def)
      then show ?thesis using True
        by (auto simp: color_bytes_def nth_Cons split: nat.splits)
    next
      case False
      then have "\<not> (P \<le> ?i \<and> ?i < P + C)" using blk by simp
      then have "\<not> (P \<le> ?i \<and> ?i < P + unat (3::u32))" using C3 by auto
      then show ?thesis using False by auto
    qed
    finally show ?thesis .
  qed
  then show ?thesis using e by (intro exI [of _ "write_px e P 3 ?c"]) simp
qed

lemma BlackWhite_bytes:
  assumes ok: "layout_ok img"
    and conv: "\<And>x y. x < unat (width (bmp_info_header img)) \<Longrightarrow>
                 y < unat (height (bmp_info_header img)) \<Longrightarrow>
                 grey_of ops rw gw bw img x y \<noteq> None"
  shows "\<exists>d'. BlackWhite ops rw gw bw (img, err) =
             Inr (img\<lparr>data := d'\<rparr>,
                  if f_less ops (f_of_int ops 1) (f_add ops (f_add ops rw gw) bw)
                  then err @ [InvalidGreyScale] else err) \<and>
           length d' = length (data img) \<and>
           (\<forall>x y k. x < unat (width (bmp_info_header img)) \<longrightarrow>
              y < unat (height (bmp_info_header img)) \<longrightarrow> k < unat (channels img) \<longrightarrow>
              byte_of (img\<lparr>data := d'\<rparr>) x y k =
                (if k < 3 then the (grey_of ops rw gw bw img x y) else byte_of img x y k))"
proof -
  let ?w = "width (bmp_info_header img)" and ?h = "height (bmp_info_header img)"
  let ?ch = "channels img"
  define W H C where "W = unat ?w" and "H = unat ?h" and "C = unat ?ch"
  note f = layout_ok_facts [OF ok, folded W_def H_def C_def]
  have C3: "3 \<le> C" using f(1) by (auto simp: C_def)
  define d where "d = data img"
  define G where "G x y = the (grey_of ops rw gw bw img x y)" for x y
  define body where "body q = grey_pixel ops rw gw bw (pixel_pos img (of_nat (fst q)) (of_nat (snd q)))"
    for q :: "nat \<times> nat"
  define qs where "qs = map prod.swap (List.product [0..<H] [0..<W])"
  have inner: "for_u32 0 ?w (\<lambda>x. grey_pixel ops rw gw bw (pixel_pos img x y)) =
        foldF (\<lambda>i. grey_pixel ops rw gw bw (pixel_pos img (of_nat i) y)) [0..<W]" for y
    by (rule ext) (simp add: for_u32_foldF foldF_map W_def)
  have "for_u32 0 ?h (\<lambda>y. for_u32 0 ?w (\<lambda>x. grey_pixel ops rw gw bw (pixel_pos img x y))) d =
        foldF (\<lambda>j. foldF (\<lambda>i. grey_pixel ops rw gw bw (pixel_pos img (of_nat i) (of_nat j))) [0..<W])
          [0..<H] d"
    by (simp add: for_u32_foldF inner foldF_map H_def)
  also have "\<dots> = foldF (\<lambda>(j, i). grey_pixel ops rw gw bw (pixel_pos img (of_nat i) (of_nat j)))
                     (List.product [0..<H] [0..<W]) d"
    by (rule foldF_product)
  also have "\<dots> = foldF body qs d"
    by (simp add: qs_def body_def [abs_def] foldF_map case_prod_unfold)
  finally have loops:
    "for_u32 0 ?h (\<lambda>y. for_u32 0 ?w (\<lambda>x. grey_pixel ops rw gw bw (pixel_pos img x y))) d =
     foldF body qs d" .
  have mem: "q \<in> set qs \<longleftrightarrow> fst q < W \<and> snd q < H" for q
    by (cases q) (auto simp: qs_def)
  have dist: "distinct qs"
    unfolding qs_def by (simp add: distinct_map distinct_product)
  define I where "I pre e \<longleftrightarrow> length e = length d \<and>
     (\<forall>x y k. x < W \<longrightarrow> y < H \<longrightarrow> k < C \<longrightarrow>
        e ! (C * (y * W + x) + k) =
          (if (x, y) \<in> set pre \<and> k < 3 then G x y else d ! (C * (y * W + x) + k)))"
    for pre :: "(nat \<times> nat) list" and e
  have "\<exists>d'. foldF body qs d = Inr d' \<and> I qs d'"
  proof (rule foldF_invariant [where I = I])
    show "I [] d" by (simp add: I_def)
  next
    fix pre q post and e :: "u8 list"
    assume split: "qs = pre @ q # post" and inv: "I pre e"
    obtain x y where q: "q = (x, y)" by (cases q)
    have "q \<in> set qs" using split by simp
    then have xy: "x < W" "y < H" using mem q by simp_all
    have fresh: "(x, y) \<notin> set pre" using dist split q by simp
    have le: "length e = C * W * H" using inv f(3) by (simp add: I_def d_def)
    have old: "e ! (C * (y' * W + x') + k) =
          (if (x', y') \<in> set pre \<and> k < 3 then G x' y' else d ! (C * (y' * W + x') + k))"
      if "x' < W" "y' < H" "k < C" for x' y' k
      using inv that by (simp add: I_def)
    have same: "e ! (C * (y * W + x) + k) = d ! (C * (y * W + x) + k)" if "k < C" for k
      using old [OF xy that] fresh by simp
    have iW: "x < unat ?w" "y < unat ?h" using xy by (simp_all add: W_def H_def)
    note xw = of_nat_less_u32 [OF iW(1)] and yw = of_nat_less_u32 [OF iW(2)]
    have fit: "unat ?ch * unat ?w * unat ?h < 2 ^ 32" using f(4) by (simp add: W_def H_def C_def)
    have c0: "0 < unat ?ch" using f(2) by (simp add: C_def)
    have pos: "unat (pixel_pos img (of_nat x) (of_nat y)) = C * (y * W + x)"
      using pixel_index(1) [OF fit xw(2) yw(2) c0] xw(1) yw(1)
      by (simp add: pixel_pos_def W_def C_def)
    obtain gv where gv: "grey_of ops rw gw bw img x y = Some gv"
      using conv [OF iW] by auto
    then have Gxy: "G x y = gv" by (simp add: G_def)
    have c: "f_to_u8 ops (grey_value ops rw gw bw (e ! (C * (y * W + x)))
               (e ! (C * (y * W + x) + 1)) (e ! (C * (y * W + x) + 2))) = Some gv"
      using gv same [of 0] same [of 1] same [of 2] C3
      by (simp add: grey_of_def byte_of_def d_def W_def C_def)
    obtain e' where e': "grey_pixel ops rw gw bw (pixel_pos img (of_nat x) (of_nat y)) e = Inr e'"
        "length e' = length e"
      and nth: "\<And>x' y' k. x' < W \<Longrightarrow> y' < H \<Longrightarrow> k < C \<Longrightarrow>
          e' ! (C * (y' * W + x') + k) =
            (if (x', y') = (x, y) \<and> k < 3 then gv else e ! (C * (y' * W + x') + k))"
      using grey_pixel_bytes [OF C3 le f(4) xy pos c] by blast
    have "I (pre @ [q]) e'"
      unfolding I_def
    proof (intro conjI allI impI)
      show "length e' = length d" using e'(2) inv by (simp add: I_def)
    next
      fix x' y' k assume b: "x' < W" "y' < H" "k < C"
      show "e' ! (C * (y' * W + x') + k) =
          (if (x', y') \<in> set (pre @ [q]) \<and> k < 3 then G x' y' else d ! (C * (y' * W + x') + k))"
        using nth [OF b] old [OF b] q Gxy by auto
    qed
    then show "\<exists>s'. body q e = Inr s' \<and> I (pre @ [q]) s'"
      using e'(1) q by (simp add: body_def)
  qed
  then obtain d' where d': "foldF body qs d = Inr d'" "I qs d'" by blast
  have run: "BlackWhite ops rw gw bw (img, err) =
        Inr (img\<lparr>data := d'\<rparr>,
             if f_less ops (f_of_int ops 1) (f_add ops (f_add ops rw gw) bw)
             then err @ [InvalidGreyScale] else err)"
    using loops d'(1) by (simp add: BlackWhite_def Let_def d_def)
  have "byte_of (img\<lparr>data := d'\<rparr>) x y k =
          (if k < 3 then the (grey_of ops rw gw bw img x y) else byte_of img x y k)"
    if b: "x < W" "y < H" "k < C" for x y k
    using d'(2) b mem [of "(x, y)"]
    by (simp add: I_def byte_of_def G_def d_def W_def C_def)
  moreover have "length d' = length (data img)" using d'(2) by (simp add: I_def d_def)
  ultimately show ?thesis using run unfolding W_def H_def C_def by blast
qed

text \<open>
  C1, as amended. Whatever the floating-point operations compute: when the test
  \<^verbatim>\<open>r + g + b > 1\<close> holds, \<open>BlackWhite\<close> prints "Invalid grey scale" and applies the
  transform all the same. On an image that satisfies the layout invariant, and when the
  grey value of every pixel converts to a byte, it returns the image in which the blue,
  green and red bytes of every pixel are the grey byte computed from the pixel's former
  bytes, the alpha byte (if any) being as before.
\<close>

theorem BlackWhite_invalid_weights:
  assumes ok: "layout_ok img"
    and gt: "f_less ops (f_of_int ops 1) (f_add ops (f_add ops rw gw) bw)"
    and conv: "\<forall>x y. x < unat (width (bmp_info_header img)) \<longrightarrow>
                 y < unat (height (bmp_info_header img)) \<longrightarrow>
                 grey_of ops rw gw bw img x y \<noteq> None"
  shows "\<exists>d'. BlackWhite ops rw gw bw (img, err) =
             Inr (img\<lparr>data := d'\<rparr>, err @ [InvalidGreyScale]) \<and>
           length d' = length (data img) \<and>
           (\<forall>x y k. x < unat (width (bmp_info_header img)) \<longrightarrow>
              y < unat (height (bmp_info_header img)) \<longrightarrow> k < unat (channels img) \<longrightarrow>
              byte_of (img\<lparr>data := d'\<rparr>) x y k =
                (if k < 3 then the (grey_of ops rw gw bw img x y) else byte_of img x y k))"
  using BlackWhite_bytes [OF ok, of ops rw gw bw err] gt conv by simp

theorem BlackWhite_invalid_weights_witness:
  "layout_ok tiny24 \<and> f_less int_floats (f_of_int int_floats 1) (f_add int_floats (f_add int_floats 1 1) 1) \<and>
   grey_of int_floats 1 1 1 tiny24 0 0 = Some 6 \<and>
   (\<exists>d'. BlackWhite int_floats 1 1 1 (tiny24, []) = Inr (tiny24\<lparr>data := d'\<rparr>, [InvalidGreyScale]) \<and>
      length d' = 3 \<and> byte_of (tiny24\<lparr>data := d'\<rparr>) 0 0 0 = 6)"
proof -
  have h: "layout_ok tiny24"
    "f_less int_floats (f_of_int int_floats 1) (f_add int_floats (f_add int_floats 1 1) 1)"
    "\<forall>x y. x < unat (width (bmp_info_header tiny24)) \<longrightarrow>
      y < unat (height (bmp_info_header tiny24)) \<longrightarrow> grey_of int_floats 1 1 1 tiny24 x y \<noteq> None"
    by (simp_all add: layout_ok_def tiny24_def word_sless_alt int_floats_def grey_of_def
        grey_value_def byte_of_def)
  from BlackWhite_invalid_weights [OF h, of "[]"] obtain d' where
    d': "BlackWhite int_floats 1 1 1 (tiny24, []) = Inr (tiny24\<lparr>data := d'\<rparr>, [InvalidGreyScale])"
      "length d' = length (data tiny24)"
      "\<forall>x y k. x < unat (width (bmp_info_header tiny24)) \<longrightarrow>
          y < unat (height (bmp_info_header tiny24)) \<longrightarrow> k < unat (channels tiny24) \<longrightarrow>
          byte_of (tiny24\<lparr>data := d'\<rparr>) x y k =
            (if k < 3 then the (grey_of int_floats 1 1 1 tiny24 x y) else byte_of tiny24 x y k)"
    by auto
  have gr: "grey_of int_floats 1 1 1 tiny24 0 0 = Some 6"
    by (simp add: tiny24_def int_floats_def grey_of_def grey_value_def byte_of_def)
  moreover have "(0::nat) < unat (width (bmp_info_header tiny24))"
    "(0::nat) < unat (height (bmp_info_header tiny24))" "(0::nat) < unat (channels tiny24)"
    by (simp_all add: tiny24_def)
  ultimately have "byte_of (tiny24\<lparr>data := d'\<rparr>) 0 0 0 = 6" using d'(3) by simp
  moreover have "length d' = 3" using d'(2) by (simp add: tiny24_def)
  ultimately show ?thesis using h(1,2) gr d'(1) by blast
qed

text \<open>
  C1 as stated fails: with the weights 1, 1, 1, whose sum 3 exceeds 1 (all values are
  small integers, on which \<^verbatim>\<open>float\<close> arithmetic is exact), the one-pixel image with bytes
  1, 2, 3 comes back with bytes 6, 6, 6 after the diagnostic.
\<close>

theorem BlackWhite_applies_invalid_weights:
  "BlackWhite int_floats 1 1 1 (tiny24, []) = Inr (tiny24\<lparr>data := [6, 6, 6]\<rparr>, [InvalidGreyScale])"
  by (simp add: BlackWhite_def for_u32.simps [of 0] for_u32.simps [of 1] grey_pixel_def
      grey_value_def pixel_pos_def load_def store_def bindF_def tiny24_def int_floats_def Let_def)


section \<open>Lines\<close>

lemma for_int_foldF: "for_int i n body s = foldF body [i..n - 1] s"
proof (induction i n body s rule: for_int.induct)
  case (1 i n body s)
  show ?case
  proof (cases "i < n")
    case True
    then have "[i..n - 1] = i # [i + 1..n - 1]" by (simp add: upto_rec1)
    then show ?thesis
      using True 1 by (subst for_int.simps) (simp split: sum.splits)
  next
    case False
    then show ?thesis by (subst for_int.simps) simp
  qed
qed






lemma int32_in [simp]: "- (2 ^ 31) \<le> v \<Longrightarrow> v < 2 ^ 31 \<Longrightarrow> int32 v = Inr v"
  by (simp add: int32_def)

lemma dda_while_neg: "e < 0 \<Longrightarrow> dda_while dx sy e y1 = Some (Inr (e, y1))"
  by (subst dda_while.simps) simp

lemma dda_while_once:
  assumes "0 \<le> e" "e < 2 * dx" "dx < 2 ^ 30" "- (2 ^ 31) \<le> y1 + sy" "y1 + sy < 2 ^ 31"
  shows "dda_while dx sy e y1 = Some (Inr (e - 2 * dx, y1 + sy))"
proof -
  have "dda_while dx sy e y1 = dda_while dx sy (e - dx * 2) (y1 + sy)"
    using assms by (subst dda_while.simps) simp
  also have "\<dots> = Some (Inr (e - 2 * dx, y1 + sy))"
    using assms by (subst dda_while.simps) simp
  finally show ?thesis .
qed

lemma dda_for_run:
  fixes dx dy sx sy :: int
  assumes dx: "0 < dx" "dx < 2 ^ 30" and dy: "0 \<le> dy" "dy \<le> dx"
    and s: "sx = 1 \<or> sx = - 1" "sy = 1 \<or> sy = - 1"
    and X: "0 \<le> X0" "X0 < 2 ^ 30" "0 \<le> X0 + dx * sx" "X0 + dx * sx < 2 ^ 30"
    and Y: "0 \<le> Y0" "Y0 < 2 ^ 30"
  shows "n = nat (dx - i) \<Longrightarrow> 0 \<le> i \<Longrightarrow> i \<le> dx \<Longrightarrow> x1 = X0 + i * sx \<Longrightarrow>
         \<bar>y1 - Y0\<bar> \<le> i \<Longrightarrow> 2 * dy - 2 * dx \<le> e \<Longrightarrow> e < 2 * dy \<Longrightarrow>
         \<exists>y' e' cs. dda_for i dx dy sx sy steep (x1, y1, e, calls) =
                      Some (Inr (X0 + dx * sx, y', e', calls @ cs)) \<and>
           length cs = n \<and>
           (i < dx \<longrightarrow> cs ! 0 = (if steep then (word_of_int y1, word_of_int x1)
                                  else (word_of_int x1, word_of_int y1))) \<and>
           (\<forall>j < n. (if steep then snd (cs ! j) else fst (cs ! j)) =
                      (word_of_int (X0 + (i + int j) * sx) :: u32))"
proof (induction n arbitrary: i x1 y1 e calls)
  case 0
  then have "i = dx" by simp
  then have "dda_for i dx dy sx sy steep (x1, y1, e, calls) = Some (Inr (x1, y1, e, calls))"
    by (subst dda_for.simps) simp
  then show ?case using 0 \<open>i = dx\<close> by simp
next
  case (Suc n)
  have i: "i < dx" using Suc.prems(1) by linarith
  define pt :: "u32 \<times> u32" where
    "pt = (if steep then (word_of_int y1, word_of_int x1) else (word_of_int x1, word_of_int y1))"
  define e1 y1' where "e1 = (if 0 \<le> e then e - 2 * dx else e)"
    and "y1' = (if 0 \<le> e then y1 + sy else y1)"
  have yr: "- 1073741824 < y1" "y1 < 2147483647"
    using Suc.prems(5) i dx Y by simp_all
  have w: "dda_while dx sy e y1 = Some (Inr (e1, y1'))"
  proof (cases "0 \<le> e")
    case True
    have "e < 2 * dx" using Suc.prems(7) dy by linarith
    moreover have "- (2 ^ 31) \<le> y1 + sy" "y1 + sy < 2 ^ 31" using yr s(2) by auto
    ultimately show ?thesis
      using True dx(2) by (simp add: dda_while_once e1_def y1'_def)
  next
    case False
    then show ?thesis by (simp add: dda_while_neg e1_def y1'_def)
  qed
  have e1: "- (2 * dx) \<le> e1" "e1 < 0"
    using Suc.prems(6,7) dy by (auto simp: e1_def)
  have x1': "0 \<le> x1 + sx" "x1 + sx < 2 ^ 30" "x1 + sx = X0 + (i + 1) * sx"
    using Suc.prems(2,4) i s(1) X by (auto simp: algebra_simps)
  have step: "bindF (int32 (x1 + sx)) (\<lambda>x1'. bindF (int32 (dy * 2)) (\<lambda>dy2.
                bindF (int32 (e1 + dy2)) (\<lambda>e2. Inr (x1', e2)))) = Inr (x1 + sx, e1 + 2 * dy)"
    using x1'(1,2) dy dx e1 by simp
  have unfold: "dda_for i dx dy sx sy steep (x1, y1, e, calls) =
        dda_for (i + 1) dx dy sx sy steep (x1 + sx, y1', e1 + 2 * dy, calls @ [pt])"
    using i w step by (subst dda_for.simps) (simp add: Let_def pt_def)
  have y1': "\<bar>y1' - Y0\<bar> \<le> i + 1" using Suc.prems(5) s(2) by (auto simp: y1'_def)
  have "\<exists>y' e' cs. dda_for (i + 1) dx dy sx sy steep (x1 + sx, y1', e1 + 2 * dy, calls @ [pt]) =
                      Some (Inr (X0 + dx * sx, y', e', (calls @ [pt]) @ cs)) \<and>
           length cs = n \<and>
           (i + 1 < dx \<longrightarrow> cs ! 0 = (if steep then (word_of_int y1', word_of_int (x1 + sx))
                                  else (word_of_int (x1 + sx), word_of_int y1'))) \<and>
           (\<forall>j < n. (if steep then snd (cs ! j) else fst (cs ! j)) =
                      (word_of_int (X0 + (i + 1 + int j) * sx) :: u32))"
  proof (rule Suc.IH)
    show "n = nat (dx - (i + 1))" using Suc.prems(1) by linarith
    show "0 \<le> i + 1" using Suc.prems(2) by simp
    show "i + 1 \<le> dx" using i by simp
    show "x1 + sx = X0 + (i + 1) * sx" by (rule x1'(3))
    show "\<bar>y1' - Y0\<bar> \<le> i + 1" by (rule y1')
    show "2 * dy - 2 * dx \<le> e1 + 2 * dy" using e1 by simp
    show "e1 + 2 * dy < 2 * dy" using e1 by simp
  qed
  then obtain y' e' cs where r:
    "dda_for (i + 1) dx dy sx sy steep (x1 + sx, y1', e1 + 2 * dy, calls @ [pt]) =
       Some (Inr (X0 + dx * sx, y', e', (calls @ [pt]) @ cs))"
    "length cs = n"
    "\<And>j. j < n \<Longrightarrow> (if steep then snd (cs ! j) else fst (cs ! j)) =
                      (word_of_int (X0 + (i + 1 + int j) * sx) :: u32)"
    by blast
  have dom: "(if steep then snd ((pt # cs) ! j) else fst ((pt # cs) ! j)) =
               (word_of_int (X0 + (i + int j) * sx) :: u32)" if "j < Suc n" for j
  proof (cases j)
    case 0
    then show ?thesis using Suc.prems(4) by (simp add: pt_def)
  next
    case (Suc j')
    then have j': "j' < n" using that by simp
    have eq: "X0 + (i + int j) * sx = X0 + (i + 1 + int j') * sx" using Suc by simp
    have nth: "(pt # cs) ! j = cs ! j'" using Suc by simp
    show ?thesis unfolding eq nth by (rule r(3) [OF j'])
  qed
  show ?case
  proof (rule exI [of _ y'], rule exI [of _ e'], rule exI [of _ "pt # cs"], intro conjI allI impI)
    show "dda_for i dx dy sx sy steep (x1, y1, e, calls) =
          Some (Inr (X0 + dx * sx, y', e', calls @ pt # cs))"
      using unfold r(1) by simp
    show "length (pt # cs) = Suc n" using r(2) by simp
    show "(pt # cs) ! 0 = (if steep then (word_of_int y1, word_of_int x1)
                           else (word_of_int x1, word_of_int y1))"
      by (simp add: pt_def)
  next
    fix j assume "j < Suc n"
    then show "(if steep then snd ((pt # cs) ! j) else fst ((pt # cs) ! j)) =
               (word_of_int (X0 + (i + int j) * sx) :: u32)"
      by (rule dom)
  qed
qed

lemma word_of_int_inj_small:
  assumes "0 \<le> a" "a < 2 ^ 32" "0 \<le> c" "c < 2 ^ 32"
  shows "(word_of_int a :: u32) = word_of_int c \<longleftrightarrow> a = c"
proof
  assume "(word_of_int a :: u32) = word_of_int c"
  then have "uint (word_of_int a :: u32) = uint (word_of_int c :: u32)" by simp
  then show "a = c" using assms by (simp add: uint_word_of_int)
qed simp

lemma count_list_first_only:
  assumes "cs \<noteq> []" "cs ! 0 = q" "\<And>j. 0 < j \<Longrightarrow> j < length cs \<Longrightarrow> cs ! j \<noteq> q"
  shows "count_list cs q = 1"
proof -
  obtain t where cs: "cs = q # t" using assms(1,2) by (cases cs) auto
  have "q \<notin> set t"
  proof
    assume "q \<in> set t"
    then obtain j where "j < length t" "t ! j = q" by (auto simp: in_set_conv_nth)
    then show False using assms(3) [of "Suc j"] cs by simp
  qed
  then show ?thesis using cs by (simp add: count_list_0_iff)
qed

lemma dda_calls_props:
  fixes cs :: "(u32 \<times> u32) list" and D X0 s :: int and dom :: "u32 \<times> u32 \<Rightarrow> u32"
  assumes len: "length cs = nat D" and D: "0 < D"
    and X: "0 \<le> X0" "X0 < 2 ^ 30" "0 \<le> X0 + D * s" "X0 + D * s < 2 ^ 30"
    and s: "s = 1 \<or> s = - 1"
    and first: "cs ! 0 = p1"
    and doms: "\<And>j. j < nat D \<Longrightarrow> dom (cs ! j) = word_of_int (X0 + (0 + int j) * s)"
    and last: "dom pe = word_of_int (X0 + D * s)"
  shows "map dom (cs @ [pe]) = map (\<lambda>j. word_of_int (X0 + int j * s)) [0..<nat D + 1]"
    and "count_list (cs @ [pe]) p1 = 1" and "count_list (cs @ [pe]) pe = 1"
proof -
  have rng: "0 \<le> X0 + int j * s \<and> X0 + int j * s < 2 ^ 32" if "j \<le> nat D" for j
  proof -
    have "int j \<le> D" using that D by linarith
    then show ?thesis using s X by (auto simp: algebra_simps)
  qed
  have inj: "(word_of_int (X0 + int j * s) :: u32) = word_of_int (X0 + int j' * s) \<longleftrightarrow> j = j'"
    if "j \<le> nat D" "j' \<le> nat D" for j j'
  proof -
    have "(word_of_int (X0 + int j * s) :: u32) = word_of_int (X0 + int j' * s) \<longleftrightarrow>
          X0 + int j * s = X0 + int j' * s"
      using rng [OF that(1)] rng [OF that(2)] by (intro word_of_int_inj_small) simp_all
    also have "\<dots> \<longleftrightarrow> j = j'" using s by auto
    finally show ?thesis .
  qed
  show "map dom (cs @ [pe]) = map (\<lambda>j. word_of_int (X0 + int j * s)) [0..<nat D + 1]"
  proof (rule nth_equalityI)
    show "length (map dom (cs @ [pe])) =
          length (map (\<lambda>j. word_of_int (X0 + int j * s) :: u32) [0..<nat D + 1])"
      using len by simp
  next
    fix j assume "j < length (map dom (cs @ [pe]))"
    then have j: "j < nat D + 1" using len by simp
    show "map dom (cs @ [pe]) ! j = map (\<lambda>j. word_of_int (X0 + int j * s)) [0..<nat D + 1] ! j"
    proof (cases "j < nat D")
      case True
      then show ?thesis using doms [OF True] len j by (simp add: nth_append)
    next
      case False
      then have "j = nat D" using j by simp
      then show ?thesis using last len D j by (simp add: nth_append)
    qed
  qed
  have dom_pe: "dom pe = word_of_int (X0 + int (nat D) * s)" using last D by simp
  have pe_notin: "pe \<notin> set cs"
  proof
    assume "pe \<in> set cs"
    then obtain j where j: "j < nat D" "cs ! j = pe" using len by (auto simp: in_set_conv_nth)
    then have "(word_of_int (X0 + int j * s) :: u32) = word_of_int (X0 + int (nat D) * s)"
      using doms [OF j(1)] dom_pe by simp
    then show False using inj [of j "nat D"] j(1) by simp
  qed
  then show "count_list (cs @ [pe]) pe = 1" by (simp add: count_list_0_iff)
  have ne: "cs \<noteq> []" using len D by auto
  have d1: "dom p1 = word_of_int (X0 + int 0 * s)" using doms [of 0] first D by simp
  have "pe \<noteq> p1"
  proof
    assume "pe = p1"
    then have "(word_of_int (X0 + int 0 * s) :: u32) = word_of_int (X0 + int (nat D) * s)"
      using d1 dom_pe by simp
    then show False using inj [of 0 "nat D"] D by simp
  qed
  moreover have "count_list cs p1 = 1"
  proof (rule count_list_first_only [OF ne first])
    fix j assume j: "0 < j" "j < length cs"
    show "cs ! j \<noteq> p1"
    proof
      assume "cs ! j = p1"
      then have "(word_of_int (X0 + int j * s) :: u32) = word_of_int (X0 + int 0 * s)"
        using doms [of j] j len d1 by simp
      then show False using inj [of j 0] j len by simp
    qed
  qed
  ultimately show "count_list (cs @ [pe]) p1 = 1" by simp
qed

lemma canvas24_built: "BMP_new 6 4 False = Inr (canvas24, [])"
  apply (simp add: BMP_new_def bindF_def int32_def Let_def resize_def default_file_header_def
      default_info_header_def word_sle_eq canvas24_def make_stride_aligned_def
      stride_loop.simps [of 18] stride_loop.simps [of 19] stride_loop.simps [of 20])
  done

lemma word_of_int_inside:
  fixes w :: i32
  assumes "0 \<le> v" "v < sint w"
  shows "(word_of_int v :: u32) < w" and "unat (word_of_int v :: u32) = nat v"
proof -
  have w: "sint w < 2 ^ 31" using sint_lt [of w] by simp
  then have "v < 2 ^ 32" using assms by simp
  then show u: "unat (word_of_int v :: u32) = nat v"
    using assms(1) by (intro unat_word_of_int_small) simp_all
  have "unat w = nat (sint w)" using assms by (intro sint_pos_unat) linarith
  then show "(word_of_int v :: u32) < w" using u assms by (simp add: word_less_nat_alt)
qed

lemma inside_facts:
  assumes "inside img x y"
  shows "0 \<le> sint x" "sint x < sint (width (bmp_info_header img))"
    "0 \<le> sint y" "sint y < sint (height (bmp_info_header img))"
    "sint x < 2 ^ 31" "sint y < 2 ^ 31"
  using assms sint_lt [of x] sint_lt [of y]
  by (simp_all add: inside_def word_sle_eq word_sless_alt)

lemma painted_member:
  fixes ps :: "(u32 \<times> u32) list"
  assumes "x < 2 ^ 32" "y < 2 ^ 32"
  shows "(x, y) \<in> (\<lambda>(a, b). (unat a, unat b)) ` set ps \<longleftrightarrow> (of_nat x, of_nat y) \<in> set ps"
proof
  assume "(x, y) \<in> (\<lambda>(a, b). (unat a, unat b)) ` set ps"
  then obtain a c where "(a, c) \<in> set ps" "x = unat a" "y = unat c" by auto
  then show "(of_nat x, of_nat y) \<in> set ps" by simp
next
  assume m: "(of_nat x, of_nat y) \<in> set ps"
  have "unat (of_nat x :: u32) = x" "unat (of_nat y :: u32) = y"
    using assms by (simp_all add: unat_of_nat_u32)
  then show "(x, y) \<in> (\<lambda>(a, b). (unat a, unat b)) ` set ps"
    using m by (force simp: image_iff)
qed



lemma dda_for_step:
  fixes dx dy sx sy :: int
  assumes i: "i < dx" and dx: "dx < 2 ^ 30" and dy: "0 \<le> dy" "dy \<le> dx"
    and sy: "sy = 1 \<or> sy = - 1"
    and x: "0 \<le> x1 + sx" "x1 + sx < 2 ^ 30"
    and y: "- (2 ^ 30) \<le> y1" "y1 < 2 ^ 31 - 1"
    and e: "2 * dy - 2 * dx \<le> e" "e < 2 * dy"
  shows "dda_for i dx dy sx sy steep (x1, y1, e, calls) =
         dda_for (i + 1) dx dy sx sy steep
           (x1 + sx, (if 0 \<le> e then y1 + sy else y1), (if 0 \<le> e then e - 2 * dx else e) + 2 * dy,
            calls @ [if steep then (word_of_int y1, word_of_int x1)
                     else (word_of_int x1, word_of_int y1)])"
proof -
  define e1 y1' where "e1 = (if 0 \<le> e then e - 2 * dx else e)"
    and "y1' = (if 0 \<le> e then y1 + sy else y1)"
  have w: "dda_while dx sy e y1 = Some (Inr (e1, y1'))"
  proof (cases "0 \<le> e")
    case True
    have "e < 2 * dx" using e(2) dy by linarith
    moreover have "- (2 ^ 31) \<le> y1 + sy" "y1 + sy < 2 ^ 31" using y sy by auto
    ultimately show ?thesis
      using True dx by (simp add: dda_while_once e1_def y1'_def)
  next
    case False
    then show ?thesis by (simp add: dda_while_neg e1_def y1'_def)
  qed
  have e1: "- (2 * dx) \<le> e1" "e1 < 0"
    using e dy by (auto simp: e1_def)
  have step: "bindF (int32 (x1 + sx)) (\<lambda>x1'. bindF (int32 (dy * 2)) (\<lambda>dy2.
                bindF (int32 (e1 + dy2)) (\<lambda>e2. Inr (x1', e2)))) = Inr (x1 + sx, e1 + 2 * dy)"
    using x dy dx e1 by simp
  show ?thesis
    using i w step by (subst dda_for.simps) (simp add: Let_def e1_def y1'_def)
qed

lemma minor_bound:
  fixes dx dy i k :: int
  assumes "0 < dx" "0 \<le> dy" "i < dx" "0 \<le> i" "2 * dx * k \<le> 2 * dy * i + dx"
  shows "k \<le> dy"
proof (rule ccontr)
  assume "\<not> k \<le> dy"
  then have "dy + 1 \<le> k" by simp
  then have "dx * (dy + 1) \<le> dx * k" using assms(1) by (intro mult_left_mono) simp_all
  then have a: "dx * dy + dx \<le> dx * k" by (simp add: algebra_simps)
  have "dy * i \<le> dy * (dx - 1)" using assms(2,3) by (intro mult_left_mono) simp_all
  then have b: "dy * i \<le> dx * dy - dy" by (simp add: algebra_simps)
  define A B C where "A = dx * dy" and "B = dx * k" and "C = dy * i"
  have "A + dx \<le> B" "C \<le> A - dy" "2 * B \<le> 2 * C + dx"
    using a b assms(5) by (simp_all add: A_def B_def C_def algebra_simps)
  then show False using assms(1,2) by linarith
qed

lemma dda_for_minor:
  fixes dx dy sx sy :: int
  assumes dx: "0 < dx" "dx < 2 ^ 30" and dy: "0 \<le> dy" "dy \<le> dx"
    and s: "sx = 1 \<or> sx = - 1" "sy = 1 \<or> sy = - 1"
    and X: "0 \<le> X0" "X0 < 2 ^ 30" "0 \<le> X0 + dx * sx" "X0 + dx * sx < 2 ^ 30"
    and Y: "0 \<le> Y0" "Y0 < 2 ^ 30"
  shows "n = nat (dx - i) \<Longrightarrow> 0 \<le> i \<Longrightarrow> i \<le> dx \<Longrightarrow> x1 = X0 + i * sx \<Longrightarrow>
         y1 = Y0 + k * sy \<Longrightarrow> 0 \<le> k \<Longrightarrow> e = 2 * dy * (i + 1) - dx - 2 * dx * k \<Longrightarrow>
         2 * dy - 2 * dx \<le> e \<Longrightarrow> e < 2 * dy \<Longrightarrow>
         dda_for i dx dy sx sy steep (x1, y1, e, calls) = Some (Inr (xe, ye, ee, res)) \<Longrightarrow>
         \<exists>cs. res = calls @ cs \<and>
           (\<forall>p \<in> set cs. \<exists>m. 0 \<le> m \<and> m \<le> dy \<and>
              (if steep then fst p else snd p) = (word_of_int (Y0 + m * sy) :: u32))"
proof (induction n arbitrary: i x1 y1 e k calls)
  case 0
  then have "i = dx" by simp
  then have "dda_for i dx dy sx sy steep (x1, y1, e, calls) = Some (Inr (x1, y1, e, calls))"
    by (subst dda_for.simps) simp
  then have "res = calls" using "0.prems"(10) by simp
  then show ?case by simp
next
  case (Suc n)
  have i: "i < dx" using Suc.prems(1) by linarith
  have "2 * dx * k \<le> 2 * dy * i + dx"
    using Suc.prems(7,8) by (simp add: algebra_simps)
  then have kb: "k \<le> dy" using minor_bound [of dx dy i k] dx dy i Suc.prems(2) by simp
  have ks: "\<bar>k * sy\<bar> = k" using s(2) Suc.prems(6) by auto
  have yr: "- (2 ^ 30) \<le> y1" "y1 < 2 ^ 31 - 1"
    using Suc.prems(5) ks kb dy dx Y by simp_all
  have x1': "0 \<le> x1 + sx" "x1 + sx < 2 ^ 30" "x1 + sx = X0 + (i + 1) * sx"
    using Suc.prems(2,4) i s(1) X by (auto simp: algebra_simps)
  define pt :: "u32 \<times> u32" where
    "pt = (if steep then (word_of_int y1, word_of_int x1) else (word_of_int x1, word_of_int y1))"
  define k' where "k' = (if 0 \<le> e then k + 1 else k)"
  define y1' where "y1' = (if 0 \<le> e then y1 + sy else y1)"
  define e' where "e' = (if 0 \<le> e then e - 2 * dx else e) + 2 * dy"
  have unfold: "dda_for i dx dy sx sy steep (x1, y1, e, calls) =
        dda_for (i + 1) dx dy sx sy steep (x1 + sx, y1', e', calls @ [pt])"
    unfolding y1'_def e'_def pt_def
    by (rule dda_for_step [OF i dx(2) dy s(2) x1'(1,2) yr Suc.prems(8,9)])
  have "\<exists>cs. res = (calls @ [pt]) @ cs \<and>
           (\<forall>p \<in> set cs. \<exists>m. 0 \<le> m \<and> m \<le> dy \<and>
              (if steep then fst p else snd p) = (word_of_int (Y0 + m * sy) :: u32))"
  proof (rule Suc.IH [where k = k'])
    show "n = nat (dx - (i + 1))" using Suc.prems(1) by linarith
    show "0 \<le> i + 1" using Suc.prems(2) by simp
    show "i + 1 \<le> dx" using i by simp
    show "x1 + sx = X0 + (i + 1) * sx" by (rule x1'(3))
    show "y1' = Y0 + k' * sy" using Suc.prems(5) by (simp add: y1'_def k'_def algebra_simps)
    show "0 \<le> k'" using Suc.prems(6) by (simp add: k'_def)
    show "e' = 2 * dy * (i + 1 + 1) - dx - 2 * dx * k'"
      using Suc.prems(7) by (simp add: e'_def k'_def algebra_simps)
    show "2 * dy - 2 * dx \<le> e'" using Suc.prems(8,9) dy by (simp add: e'_def)
    show "e' < 2 * dy" using Suc.prems(8,9) dy dx by (simp add: e'_def)
    show "dda_for (i + 1) dx dy sx sy steep (x1 + sx, y1', e', calls @ [pt]) =
          Some (Inr (xe, ye, ee, res))"
      using Suc.prems(10) unfold by simp
  qed
  then obtain cs where cs: "res = (calls @ [pt]) @ cs"
    "\<And>p. p \<in> set cs \<Longrightarrow> \<exists>m. 0 \<le> m \<and> m \<le> dy \<and>
              (if steep then fst p else snd p) = (word_of_int (Y0 + m * sy) :: u32)"
    by blast
  have "\<exists>m. 0 \<le> m \<and> m \<le> dy \<and>
          (if steep then fst pt else snd pt) = (word_of_int (Y0 + m * sy) :: u32)"
    using Suc.prems(5,6) kb by (intro exI [of _ k]) (simp add: pt_def)
  then show ?case using cs by (intro exI [of _ "pt # cs"]) auto
qed

lemma between:
  fixes s j D X :: int
  assumes "s = 1 \<or> s = - 1" "0 \<le> j" "j \<le> D"
  shows "min X (X + D * s) \<le> X + j * s \<and> X + j * s \<le> max X (X + D * s)"
  using assms by auto

lemma drawLine_calls_general:
  fixes x1 y1 x2 y2 :: int
  assumes r: "0 \<le> x1" "x1 < 2 ^ 30" "0 \<le> y1" "y1 < 2 ^ 30"
      "0 \<le> x2" "x2 < 2 ^ 30" "0 \<le> y2" "y2 < 2 ^ 30"
    and ne: "x1 \<noteq> x2" "y1 \<noteq> y2"
  shows "\<exists>calls. drawLine_calls x1 y1 x2 y2 = Some (Inr calls) \<and>
           length calls = nat (max \<bar>x2 - x1\<bar> \<bar>y2 - y1\<bar>) + 1 \<and>
           (if \<bar>x2 - x1\<bar> < \<bar>y2 - y1\<bar>
            then map snd calls =
                   map (\<lambda>j. word_of_int (y1 + int j * sgn (y2 - y1))) [0..<length calls]
            else map fst calls =
                   map (\<lambda>j. word_of_int (x1 + int j * sgn (x2 - x1))) [0..<length calls]) \<and>
           count_list calls (word_of_int x1, word_of_int y1) = 1 \<and>
           count_list calls (word_of_int x2, word_of_int y2) = 1 \<and>
           (\<forall>p q. (p, q) \<in> set calls \<longrightarrow>
              (\<exists>u v. p = word_of_int u \<and> q = word_of_int v \<and>
                 min x1 x2 \<le> u \<and> u \<le> max x1 x2 \<and> min y1 y2 \<le> v \<and> v \<le> max y1 y2))"
proof -
  define dx dy sx sy where "dx = \<bar>x2 - x1\<bar>" and "dy = \<bar>y2 - y1\<bar>"
    and "sx = (if x2 - x1 > 0 then 1 else - 1 :: int)"
    and "sy = (if y2 - y1 > 0 then 1 else - 1 :: int)"
  have d: "0 < dx" "dx < 2 ^ 30" "0 < dy" "dy < 2 ^ 30"
    using r ne by (auto simp: dx_def dy_def)
  have sg: "sx = sgn (x2 - x1)" "sy = sgn (y2 - y1)" "sx = 1 \<or> sx = - 1" "sy = 1 \<or> sy = - 1"
    using ne by (auto simp: sx_def sy_def sgn_if)
  have ends: "x1 + dx * sx = x2" "y1 + dy * sy = y2"
    by (auto simp: dx_def dy_def sx_def sy_def)
  have i32: "int32 (x2 - x1) = Inr (x2 - x1)" "int32 (y2 - y1) = Inr (y2 - y1)"
    "int32 dx = Inr dx" "int32 dy = Inr dy"
    using r d by (simp_all add: int32_def)
  let ?pe = "(word_of_int x2, word_of_int y2) :: u32 \<times> u32"
  let ?p1 = "(word_of_int x1, word_of_int y1) :: u32 \<times> u32"
  show ?thesis
  proof (cases "dy > dx")
    case True
    have e: "int32 (2 * dx) = Inr (2 * dx)" "int32 (2 * dx - dy) = Inr (2 * dx - dy)"
      using d by (simp_all add: int32_def)
    obtain y' e' cs where run:
      "dda_for 0 dy dx sy sx True (y1, x1, 2 * dx - dy, []) = Some (Inr (y1 + dy * sy, y', e', [] @ cs))"
      and len: "length cs = nat (dy - 0)"
      and first: "0 < dy \<longrightarrow> cs ! 0 = (if True then (word_of_int x1, word_of_int y1)
                                        else (word_of_int y1, word_of_int x1))"
      and doms: "\<forall>j < nat (dy - 0). (if True then snd (cs ! j) else fst (cs ! j)) =
                                 (word_of_int (y1 + (0 + int j) * sy) :: u32)"
      using dda_for_run [of dy dx sy sx y1 x1 "nat (dy - 0)" 0 y1 x1 "2 * dx - dy" True "[]"]
        d True sg(3,4) r ends by auto
    have calls: "drawLine_calls x1 y1 x2 y2 = Some (Inr (cs @ [?pe]))"
      using ne True i32 e run [unfolded sx_def sy_def]
      by (simp add: drawLine_calls_def liftF_def liftF_opt_def Let_def
          dx_def [symmetric] dy_def [symmetric])
    have len': "length cs = nat dy" using len by simp
    note props = dda_calls_props [where dom = snd and cs = cs and pe = ?pe and ?p1.0 = ?p1
        and D = dy and ?X0.0 = y1 and s = sy]
    have p: "map snd (cs @ [?pe]) = map (\<lambda>j. word_of_int (y1 + int j * sy)) [0..<nat dy + 1]"
      "count_list (cs @ [?pe]) ?p1 = 1" "count_list (cs @ [?pe]) ?pe = 1"
      using props d r ends sg(4) len' first doms by simp_all
    obtain cs' where minor: "[] @ cs = [] @ cs'"
      "\<And>p. p \<in> set cs' \<Longrightarrow> \<exists>m. 0 \<le> m \<and> m \<le> dx \<and>
         (if True then fst p else snd p) = (word_of_int (x1 + m * sx) :: u32)"
      using dda_for_minor [of dy dx sy sx y1 x1 "nat (dy - 0)" 0 y1 x1 0 "2 * dx - dy" True "[]",
          OF _ _ _ _ _ _ _ _ _ _ _ _ _ _ _ _ _ _ _ _ _ run]
        d True sg(3,4) r ends by auto
    have box: "\<exists>u v. p = word_of_int u \<and> q = word_of_int v \<and>
                 min x1 x2 \<le> u \<and> u \<le> max x1 x2 \<and> min y1 y2 \<le> v \<and> v \<le> max y1 y2"
      if pq: "(p, q) \<in> set (cs @ [?pe])" for p q
    proof (cases "(p, q) \<in> set cs")
      case True
      then obtain j where j: "j < length cs" "cs ! j = (p, q)" by (auto simp: in_set_conv_nth)
      have q: "q = word_of_int (y1 + int j * sy)" using doms j len by auto
      obtain m where m: "0 \<le> m" "m \<le> dx" "p = word_of_int (x1 + m * sx)"
        using minor(2) [of "(p, q)"] minor(1) True by auto
      have "int j \<le> dy" using j(1) len by simp
      then have "min y1 y2 \<le> y1 + int j * sy \<and> y1 + int j * sy \<le> max y1 y2"
        using between [of sy "int j" dy y1] sg(4) ends by simp
      moreover have "min x1 x2 \<le> x1 + m * sx \<and> x1 + m * sx \<le> max x1 x2"
        using between [of sx m dx x1] sg(3) ends m by simp
      ultimately show ?thesis using q m(3) by blast
    next
      case False
      then have "p = word_of_int x2" "q = word_of_int y2" using pq by auto
      then show ?thesis by (intro exI [of _ x2] exI [of _ y2]) simp
    qed
    show ?thesis
      using calls p len' True box
      by (intro exI [of _ "cs @ [?pe]"])
         (simp add: dx_def [symmetric] dy_def [symmetric] sg(2) [symmetric] max_def)
  next
    case False
    then have le: "dy \<le> dx" by simp
    have e: "int32 (2 * dy) = Inr (2 * dy)" "int32 (2 * dy - dx) = Inr (2 * dy - dx)"
      using d by (simp_all add: int32_def)
    obtain y' e' cs where run:
      "dda_for 0 dx dy sx sy False (x1, y1, 2 * dy - dx, []) = Some (Inr (x1 + dx * sx, y', e', [] @ cs))"
      and len: "length cs = nat (dx - 0)"
      and first: "0 < dx \<longrightarrow> cs ! 0 = (if False then (word_of_int y1, word_of_int x1)
                                        else (word_of_int x1, word_of_int y1))"
      and doms: "\<forall>j < nat (dx - 0). (if False then snd (cs ! j) else fst (cs ! j)) =
                                 (word_of_int (x1 + (0 + int j) * sx) :: u32)"
      using dda_for_run [of dx dy sx sy x1 y1 "nat (dx - 0)" 0 x1 y1 "2 * dy - dx" False "[]"]
        d le sg(3,4) r ends by auto
    have calls: "drawLine_calls x1 y1 x2 y2 = Some (Inr (cs @ [?pe]))"
      using ne False i32 e run [unfolded sx_def sy_def]
      by (simp add: drawLine_calls_def liftF_def liftF_opt_def Let_def
          dx_def [symmetric] dy_def [symmetric])
    have len': "length cs = nat dx" using len by simp
    note props = dda_calls_props [where dom = fst and cs = cs and pe = ?pe and ?p1.0 = ?p1
        and D = dx and ?X0.0 = x1 and s = sx]
    have p: "map fst (cs @ [?pe]) = map (\<lambda>j. word_of_int (x1 + int j * sx)) [0..<nat dx + 1]"
      "count_list (cs @ [?pe]) ?p1 = 1" "count_list (cs @ [?pe]) ?pe = 1"
      using props d r ends sg(3) len' first doms by simp_all
    obtain cs' where minor: "[] @ cs = [] @ cs'"
      "\<And>p. p \<in> set cs' \<Longrightarrow> \<exists>m. 0 \<le> m \<and> m \<le> dy \<and>
         (if False then fst p else snd p) = (word_of_int (y1 + m * sy) :: u32)"
      using dda_for_minor [of dx dy sx sy x1 y1 "nat (dx - 0)" 0 x1 y1 0 "2 * dy - dx" False "[]",
          OF _ _ _ _ _ _ _ _ _ _ _ _ _ _ _ _ _ _ _ _ _ run]
        d le sg(3,4) r ends by auto
    have box: "\<exists>u v. p = word_of_int u \<and> q = word_of_int v \<and>
                 min x1 x2 \<le> u \<and> u \<le> max x1 x2 \<and> min y1 y2 \<le> v \<and> v \<le> max y1 y2"
      if pq: "(p, q) \<in> set (cs @ [?pe])" for p q
    proof (cases "(p, q) \<in> set cs")
      case True
      then obtain j where j: "j < length cs" "cs ! j = (p, q)" by (auto simp: in_set_conv_nth)
      have q: "p = word_of_int (x1 + int j * sx)" using doms j len by auto
      obtain m where m: "0 \<le> m" "m \<le> dy" "q = word_of_int (y1 + m * sy)"
        using minor(2) [of "(p, q)"] minor(1) True by auto
      have "int j \<le> dx" using j(1) len by simp
      then have "min x1 x2 \<le> x1 + int j * sx \<and> x1 + int j * sx \<le> max x1 x2"
        using between [of sx "int j" dx x1] sg(3) ends by simp
      moreover have "min y1 y2 \<le> y1 + m * sy \<and> y1 + m * sy \<le> max y1 y2"
        using between [of sy m dy y1] sg(4) ends m by simp
      ultimately show ?thesis using q m(3) by blast
    next
      case False
      then have "p = word_of_int x2" "q = word_of_int y2" using pq by auto
      then show ?thesis by (intro exI [of _ x2] exI [of _ y2]) simp
    qed
    show ?thesis
      using calls p len' False box
      by (intro exI [of _ "cs @ [?pe]"])
         (simp add: dx_def [symmetric] dy_def [symmetric] sg(1) [symmetric] max_def)
  qed
qed

lemma dims_small:
  assumes ok: "layout_ok img" and h2: "2 \<le> sint (height (bmp_info_header img))"
    and w2: "2 \<le> sint (width (bmp_info_header img))"
  shows "sint (width (bmp_info_header img)) < 2 ^ 30"
    and "sint (height (bmp_info_header img)) < 2 ^ 30"
proof -
  let ?w = "width (bmp_info_header img)" and ?h = "height (bmp_info_header img)"
  define W H C where "W = unat ?w" and "H = unat ?h" and "C = unat (channels img)"
  note f = layout_ok_facts [OF ok, folded W_def H_def C_def]
  have uw: "W = nat (sint ?w)" unfolding W_def using w2 by (intro sint_pos_unat) linarith
  have uh: "H = nat (sint ?h)" unfolding H_def using h2 by (intro sint_pos_unat) linarith
  have W2: "2 \<le> W" and H2: "2 \<le> H" using uw uh w2 h2 by linarith+
  have c3: "3 \<le> C" using f(1) by (auto simp: C_def)
  define P where "P = W * H"
  have le: "3 * P \<le> C * P" using c3 by (rule mult_le_mono1)
  have "C * P < 4294967296" using f(4) by (simp only: mult.assoc P_def) simp
  with le have b: "3 * P < 4294967296" by (rule le_less_trans)
  have "W * 2 \<le> P" unfolding P_def using H2 by (rule mult_le_mono2)
  with b have "W < 1073741824" by linarith
  then show "sint ?w < 2 ^ 30" using uw w2 by simp
  have "2 * H \<le> P" unfolding P_def using W2 by (rule mult_le_mono1)
  with b have "H < 1073741824" by linarith
  then show "sint ?h < 2 ^ 30" using uh h2 by simp
qed

text \<open>
  C6: in the general case (\<open>x1 \<noteq> x2\<close> and \<open>y1 \<noteq> y2\<close>) between two points of the image,
  \<^verbatim>\<open>drawLine\<close> on the image returns, without a fault of its integer arithmetic or of the
  buffer and without a diagnostic. Its loop makes \<open>max \<bar>x2 - x1\<bar> \<bar>y2 - y1\<bar> + 1\<close> calls of
  \<^verbatim>\<open>drawPixel\<close>, the \<open>j\<close>-th of them at step \<open>j\<close> along the dominant axis (the \<open>y\<close> axis when
  \<open>\<bar>y2 - y1\<bar> > \<bar>x2 - x1\<bar>\<close>, the \<open>x\<close> axis otherwise), and each of the two endpoints
  \<open>(x1, y1)\<close> and \<open>(x2, y2)\<close> is the argument of exactly one call. Every call is inside the
  image: afterwards the pixels of the calls, the two endpoints among them, hold the bytes
  of the colour and every other byte of the buffer is unchanged.
\<close>

theorem drawLine_general:
  assumes ok: "layout_ok img" and p1: "inside img x1 y1" and p2: "inside img x2 y2"
    and ne: "x1 \<noteq> x2" "y1 \<noteq> y2"
  shows "\<exists>calls d'.
           drawLine_calls (sint x1) (sint y1) (sint x2) (sint y2) = Some (Inr calls) \<and>
           length calls = nat (max \<bar>sint x2 - sint x1\<bar> \<bar>sint y2 - sint y1\<bar>) + 1 \<and>
           (if \<bar>sint x2 - sint x1\<bar> < \<bar>sint y2 - sint y1\<bar>
            then map snd calls =
                   map (\<lambda>j. word_of_int (sint y1 + int j * sgn (sint y2 - sint y1)))
                     [0..<length calls]
            else map fst calls =
                   map (\<lambda>j. word_of_int (sint x1 + int j * sgn (sint x2 - sint x1)))
                     [0..<length calls]) \<and>
           count_list calls (x1, y1) = 1 \<and> count_list calls (x2, y2) = 1 \<and>
           drawLine x1 y1 x2 y2 c (img, err) = Some (Inr (img\<lparr>data := d'\<rparr>, err)) \<and>
           length d' = length (data img) \<and>
           (\<forall>x y k. x < unat (width (bmp_info_header img)) \<longrightarrow>
              y < unat (height (bmp_info_header img)) \<longrightarrow> k < unat (channels img) \<longrightarrow>
              byte_of (img\<lparr>data := d'\<rparr>) x y k =
                (if (of_nat x, of_nat y) \<in> set calls then color_bytes c ! k
                 else byte_of img x y k)) \<and>
           (\<forall>k. k < unat (channels img) \<longrightarrow>
              byte_of (img\<lparr>data := d'\<rparr>) (unat x1) (unat y1) k = color_bytes c ! k \<and>
              byte_of (img\<lparr>data := d'\<rparr>) (unat x2) (unat y2) k = color_bytes c ! k)"
proof -
  let ?w = "width (bmp_info_header img)" and ?h = "height (bmp_info_header img)"
  note a = inside_facts [OF p1] and b = inside_facts [OF p2]
  have sne: "sint x1 \<noteq> sint x2" "sint y1 \<noteq> sint y2"
    using ne by (auto simp: signed_word_eqI)
  have "2 \<le> sint ?w" "2 \<le> sint ?h"
    using a b sne by linarith+
  then have "sint ?w < 2 ^ 30" "sint ?h < 2 ^ 30"
    using dims_small [OF ok] by simp_all
  then have r: "sint x1 < 2 ^ 30" "sint y1 < 2 ^ 30" "sint x2 < 2 ^ 30" "sint y2 < 2 ^ 30"
    using a b by linarith+
  obtain calls where calls: "drawLine_calls (sint x1) (sint y1) (sint x2) (sint y2) = Some (Inr calls)"
    and len: "length calls = nat (max \<bar>sint x2 - sint x1\<bar> \<bar>sint y2 - sint y1\<bar>) + 1"
    and axis: "if \<bar>sint x2 - sint x1\<bar> < \<bar>sint y2 - sint y1\<bar>
            then map snd calls =
                   map (\<lambda>j. word_of_int (sint y1 + int j * sgn (sint y2 - sint y1)))
                     [0..<length calls]
            else map fst calls =
                   map (\<lambda>j. word_of_int (sint x1 + int j * sgn (sint x2 - sint x1)))
                     [0..<length calls]"
    and once: "count_list calls (x1, y1) = 1" "count_list calls (x2, y2) = 1"
    and box: "\<And>p q. (p, q) \<in> set calls \<Longrightarrow>
              \<exists>u v. p = word_of_int u \<and> q = word_of_int v \<and>
                 min (sint x1) (sint x2) \<le> u \<and> u \<le> max (sint x1) (sint x2) \<and>
                 min (sint y1) (sint y2) \<le> v \<and> v \<le> max (sint y1) (sint y2)"
    using drawLine_calls_general [OF a(1) r(1) a(3) r(2) b(1) r(3) b(3) r(4) sne]
    by auto
  have ins: "p < ?w \<and> q < ?h" if pq: "(p, q) \<in> set calls" for p q
  proof -
    obtain u v where uv: "p = word_of_int u" "q = word_of_int v"
      "min (sint x1) (sint x2) \<le> u" "u \<le> max (sint x1) (sint x2)"
      "min (sint y1) (sint y2) \<le> v" "v \<le> max (sint y1) (sint y2)"
      using box [OF pq] by blast
    have "0 \<le> u" "u < sint ?w" "0 \<le> v" "v < sint ?h" using uv(3-6) a b by linarith+
    then show ?thesis
      using word_of_int_inside(1) [of u ?w] word_of_int_inside(1) [of v ?h] uv(1,2) by simp
  qed
  obtain d' where d': "foldF (\<lambda>(x, y). setPixel x y c) calls (img, err) = Inr (img\<lparr>data := d'\<rparr>, err)"
      "length d' = length (data img)"
    and bytes: "\<And>x y k. x < unat ?w \<Longrightarrow> y < unat ?h \<Longrightarrow> k < unat (channels img) \<Longrightarrow>
        byte_of (img\<lparr>data := d'\<rparr>) x y k =
          (if (x, y) \<in> (\<lambda>(a, b). (unat a, unat b)) ` set calls then color_bytes c ! k
           else byte_of img x y k)"
    using drawPixels_bytes [OF ok ins, of calls c err] by blast
  have run: "drawLine x1 y1 x2 y2 c (img, err) = Some (Inr (img\<lparr>data := d'\<rparr>, err))"
    using calls d'(1)
    by (simp add: drawLine_def liftF_opt_def liftF_def drawPixels_def drawPixel_def)
  have painted: "byte_of (img\<lparr>data := d'\<rparr>) x y k =
          (if (of_nat x, of_nat y) \<in> set calls then color_bytes c ! k else byte_of img x y k)"
    if rr: "x < unat ?w" "y < unat ?h" "k < unat (channels img)" for x y k
  proof -
    have "x < 2 ^ 32" "y < 2 ^ 32"
      using rr unsigned_less [of ?w, where 'a = nat] unsigned_less [of ?h, where 'a = nat]
      by simp_all
    then show ?thesis using bytes [OF rr] painted_member [of x y calls] by simp
  qed
  have mem: "(x1, y1) \<in> set calls" "(x2, y2) \<in> set calls"
    using once count_list_0_iff [of calls "(x1, y1)"] count_list_0_iff [of calls "(x2, y2)"]
    by auto
  have e1: "unat x1 < unat ?w" "unat y1 < unat ?h" "unat x2 < unat ?w" "unat y2 < unat ?h"
    using ins [OF mem(1)] ins [OF mem(2)] by (simp_all add: word_less_nat_alt)
  have ends: "byte_of (img\<lparr>data := d'\<rparr>) (unat x1) (unat y1) k = color_bytes c ! k \<and>
              byte_of (img\<lparr>data := d'\<rparr>) (unat x2) (unat y2) k = color_bytes c ! k"
    if k: "k < unat (channels img)" for k
    using painted [OF e1(1,2) k] painted [OF e1(3,4) k] mem by simp
  have E: "\<forall>k. k < unat (channels img) \<longrightarrow>
              byte_of (img\<lparr>data := d'\<rparr>) (unat x1) (unat y1) k = color_bytes c ! k \<and>
              byte_of (img\<lparr>data := d'\<rparr>) (unat x2) (unat y2) k = color_bytes c ! k"
    using ends by blast
  have P: "\<forall>x y k. x < unat ?w \<longrightarrow> y < unat ?h \<longrightarrow> k < unat (channels img) \<longrightarrow>
              byte_of (img\<lparr>data := d'\<rparr>) x y k =
                (if (of_nat x, of_nat y) \<in> set calls then color_bytes c ! k
                 else byte_of img x y k)"
    using painted by blast
  show ?thesis
    by (rule exI [of _ calls], rule exI [of _ d'])
       (intro conjI; fact calls len axis once run d'(2) P E)
qed

theorem drawLine_general_witness:
  "layout_ok canvas24 \<and> inside canvas24 0 0 \<and> inside canvas24 5 3 \<and> (0::i32) \<noteq> 5 \<and> (0::i32) \<noteq> 3 \<and>
   drawLine_calls 0 0 5 3 = Some (Inr [(0, 0), (1, 1), (2, 1), (3, 2), (4, 2), (5, 3)]) \<and>
   (\<exists>d'. drawLine 0 0 5 3 \<lparr>r = 1, g = 2, b = 3, alpha = 4\<rparr> (canvas24, []) =
            Some (Inr (canvas24\<lparr>data := d'\<rparr>, [])) \<and>
      length d' = 72 \<and>
      byte_of (canvas24\<lparr>data := d'\<rparr>) 0 0 0 = 3 \<and>
      byte_of (canvas24\<lparr>data := d'\<rparr>) 5 3 2 = 1 \<and>
      byte_of (canvas24\<lparr>data := d'\<rparr>) 1 0 0 = 0)"
proof -
  let ?c = "\<lparr>r = 1, g = 2, b = 3, alpha = 4\<rparr>"
  have h: "layout_ok canvas24" "inside canvas24 0 0" "inside canvas24 5 3"
    "(0::i32) \<noteq> 5" "(0::i32) \<noteq> 3"
    by (simp_all add: layout_ok_def inside_def canvas24_def word_sless_alt word_sle_eq)
  have l: "drawLine_calls 0 0 5 3 = Some (Inr [(0, 0), (1, 1), (2, 1), (3, 2), (4, 2), (5, 3)])"
    by code_simp
  from drawLine_general [OF h, of ?c "[]"]
  obtain calls d' where c:
    "drawLine_calls (sint (0::i32)) (sint (0::i32)) (sint (5::i32)) (sint (3::i32)) = Some (Inr calls)"
    "drawLine 0 0 5 3 ?c (canvas24, []) = Some (Inr (canvas24\<lparr>data := d'\<rparr>, []))"
    "length d' = length (data canvas24)"
    "\<forall>x y k. x < unat (width (bmp_info_header canvas24)) \<longrightarrow>
       y < unat (height (bmp_info_header canvas24)) \<longrightarrow> k < unat (channels canvas24) \<longrightarrow>
       byte_of (canvas24\<lparr>data := d'\<rparr>) x y k =
         (if (of_nat x, of_nat y) \<in> set calls then color_bytes ?c ! k
          else byte_of canvas24 x y k)"
    "\<forall>k. k < unat (channels canvas24) \<longrightarrow>
       byte_of (canvas24\<lparr>data := d'\<rparr>) (unat (0::i32)) (unat (0::i32)) k = color_bytes ?c ! k \<and>
       byte_of (canvas24\<lparr>data := d'\<rparr>) (unat (5::i32)) (unat (3::i32)) k = color_bytes ?c ! k"
    by blast
  have calls: "calls = [(0, 0), (1, 1), (2, 1), (3, 2), (4, 2), (5, 3)]"
    using c(1) l by simp
  have ch: "unat (channels canvas24) = 3" "unat (width (bmp_info_header canvas24)) = 6"
    "unat (height (bmp_info_header canvas24)) = 4"
    by (simp_all add: canvas24_def)
  have b1: "byte_of (canvas24\<lparr>data := d'\<rparr>) 0 0 0 = 3"
    using c(5) [rule_format, of 0] ch by (simp add: color_bytes_def)
  have b2: "byte_of (canvas24\<lparr>data := d'\<rparr>) 5 3 2 = 1"
    using c(5) [rule_format, of 2] ch by (simp add: color_bytes_def)
  have b3: "byte_of (canvas24\<lparr>data := d'\<rparr>) 1 0 0 = 0"
    using c(4) [rule_format, of 1 0 0] ch unfolding calls
    by (simp add: byte_of_def canvas24_def)
  have "length d' = 72" using c(3) by (simp add: canvas24_def)
  then show ?thesis using h l c(2) b1 b2 b3 by blast
qed

section \<open>Reading a file with another signature\<close>

lemma stream_read_after2:
  "stream_read n (after2 m0 m1 inp) =
     (fst (stream_read n inp), after2 m0 m1 (snd (stream_read n inp)))"
  by (simp add: stream_read_def after2_def Let_def)

lemma seekg_after2:
  "2 \<le> off \<Longrightarrow> seekg off (after2 m0 m1 inp) = after2 m0 m1 (seekg (off - 2) inp)"
  by (auto simp: seekg_def after2_def)

lemma read_row_after2:
  "read_row rs pad y (d, after2 m0 m1 inp) =
     map_sum id (\<lambda>s. (fst s, after2 m0 m1 (snd s))) (read_row rs pad y (d, inp))"
  by (simp add: read_row_def stream_read_after2 Let_def split_def)

lemma read_rows_after2:
  "foldF (read_row rs pad) ys (d, after2 m0 m1 inp) =
     map_sum id (\<lambda>s. (fst s, after2 m0 m1 (snd s))) (foldF (read_row rs pad) ys (d, inp))"
proof (induction ys arbitrary: d inp)
  case Nil
  then show ?case by simp
next
  case (Cons y ys)
  show ?case
  proof (cases "read_row rs pad y (d, inp)")
    case (Inl f)
    then show ?thesis by (simp add: read_row_after2)
  next
    case (Inr s)
    then show ?thesis using Cons.IH [of "fst s" "snd s"]
      by (simp add: read_row_after2)
  qed
qed

lemma bindF_map_sum: "bindF (map_sum id h m) f = bindF m (\<lambda>v. f (h v))"
  by (cases m) (simp_all add: bindF_def)

lemma first_read_after2:
  "12 \<le> length rest \<Longrightarrow>
   stream_read 14 \<lparr>contents = m0 # m1 # rest, gpos = 0, good = True\<rparr> =
     (m0 # m1 # take 12 rest, after2 m0 m1 \<lparr>contents = rest, gpos = 12, good = True\<rparr>)"
  by (simp add: stream_read_def after2_def Let_def)

lemma length_file_header_bytes [simp]: "length (file_header_bytes fh) = 14"
  by (simp add: file_header_bytes_def le16_def le32_def)

lemma overlay_full: "length got = length old \<Longrightarrow> overlay old 0 got = got"
  by (simp add: overlay_def)

lemma rd_cons2:
  "rd16 (m0 # m1 # rest) (Suc (Suc i)) = rd16 rest i"
  "rd32 (m0 # m1 # rest) (Suc (Suc i)) = rd32 rest i"
  by (simp_all add: rd16_def rd32_def add.commute)

lemma fh_cons2:
  "file_header_of (m0 # m1 # rest) =
     \<lparr>file_type = rd16 [m0, m1] 0, file_size = rd32 rest 0, reserved1 = rd16 rest 4,
      reserved2 = rd16 rest 6, offset_data = rd32 rest 8\<rparr>"
proof -
  have n: "(2::nat) = Suc (Suc 0)" "(6::nat) = Suc (Suc 4)" "(8::nat) = Suc (Suc 6)"
    "(10::nat) = Suc (Suc 8)" by simp_all
  show ?thesis
    unfolding file_header_of_def
    by (simp only: n(1) n(2) n(3) n(4) rd_cons2) (simp add: rd16_def)
qed

lemma si_bindF:
  "signature_ignored t err (bindF m f) = bindF m (\<lambda>v. signature_ignored t err (f v))"
  by (cases m) (simp_all add: bindF_def signature_ignored_def)

lemma si_Inr:
  "signature_ignored t err (Inr (im, e)) =
     Inr (im\<lparr>file_header := (file_header im)\<lparr>file_type := t\<rparr>\<rparr>, err @ [UnrecognizedFormat] @ e)"
  by (simp add: signature_ignored_def)

lemma si_Inl: "signature_ignored t err (Inl f) = Inl f"
  by (simp add: signature_ignored_def)

lemma file_header_update_first:
  "im\<lparr>bmp_info_header := ih, file_header := fh\<rparr> = im\<lparr>file_header := fh, bmp_info_header := ih\<rparr>"
  "im\<lparr>bmp_color_header := cc, file_header := fh\<rparr> = im\<lparr>file_header := fh, bmp_color_header := cc\<rparr>"
  "im\<lparr>data := d, file_header := fh\<rparr> = im\<lparr>file_header := fh, data := d\<rparr>"
  "im\<lparr>channels := n, file_header := fh\<rparr> = im\<lparr>file_header := fh, channels := n\<rparr>"
  "im\<lparr>row_stride := rs, file_header := fh\<rparr> = im\<lparr>file_header := fh, row_stride := rs\<rparr>"
  for im :: BMP
  by simp_all

lemma read_cons2:
  assumes len: "12 \<le> length rest" and off: "2 \<le> unat (rd32 (take 12 rest) 8)"
    and bad: "rd16 [m0, m1] 0 \<noteq> 0x4D42"
  shows "read (Some (m0 # m1 # rest)) (img, err) =
         signature_ignored (rd16 [m0, m1] 0) err (read (Some (0x42 # 0x4D # rest)) (img, []))"
proof -
  have good: "rd16 [0x42, 0x4D] 0 = 0x4D42" by (simp add: rd16_def)
  define ih where "ih = info_header_of (overlay (info_header_bytes (bmp_info_header img)) 0
    (fst (stream_read 40 \<lparr>contents = rest, gpos = 12, good = True\<rparr>)))"
  note rules = read_def first_read_after2 stream_read_after2 seekg_after2 Let_def split_def
     overlay_full fh_cons2 good for_int_foldF read_rows_after2 bindF_map_sum
     si_bindF si_Inr si_Inl file_header_update_first if_distrib [of "signature_ignored t err" for t err]
  consider (a) "bit_count ih = 32" "124 \<le> header_size ih"
    | (b) "bit_count ih = 32" "\<not> 124 \<le> header_size ih" | (c) "bit_count ih \<noteq> 32"
    by blast
  then show ?thesis
  proof cases
    case a
    show ?thesis
      using len off bad a [unfolded ih_def]
      by (simp add: rules cong: if_cong)
  next
    case b
    show ?thesis
      using len off bad b [unfolded ih_def]
      by (simp add: rules cong: if_cong)
  next
    case c
    show ?thesis
      using len off bad c [unfolded ih_def]
      by (simp add: rules cong: if_cong)
  qed
qed

text \<open>
  C3, as the code has it: \<^verbatim>\<open>read\<close> does not stop at a signature other than \<^verbatim>\<open>BM\<close>. On a
  file of at least 14 bytes whose data offset does not point into the signature, it
  prints the diagnostic and then does exactly what it does on the same file with the
  signature \<^verbatim>\<open>BM\<close>: the same fault, or the same image, which keeps the signature read as
  its \<^verbatim>\<open>file_type\<close>.
\<close>

theorem read_bad_signature:
  assumes len: "14 \<le> length bytes" and bad: "rd16 bytes 0 \<noteq> 0x4D42"
    and off: "2 \<le> unat (rd32 bytes 10)"
  shows "read (Some bytes) (img, err) =
         signature_ignored (rd16 bytes 0) err (read (Some (0x42 # 0x4D # drop 2 bytes)) (img, []))"
proof -
  obtain m0 m1 rest where bytes: "bytes = m0 # m1 # rest"
    using len by (cases bytes; simp) (rename_tac x xs, case_tac xs; simp)
  have l: "12 \<le> length rest" using len by (simp add: bytes)
  have t: "rd16 bytes 0 = rd16 [m0, m1] 0" by (simp add: bytes rd16_def)
  have "rd32 bytes 10 = rd32 rest 8"
    using rd_cons2(2) [of m0 m1 rest 8] by (simp add: bytes)
  also have "\<dots> = rd32 (take 12 rest) 8" using l by (simp add: rd32_def)
  finally have o: "2 \<le> unat (rd32 (take 12 rest) 8)" using off by simp
  have d: "drop 2 bytes = rest" by (simp add: bytes)
  show ?thesis
    unfolding t d unfolding bytes by (rule read_cons2 [OF l o bad [unfolded t]])
qed

theorem read_bad_signature_witness:
  "14 \<le> length xx_file \<and> rd16 xx_file 0 \<noteq> 0x4D42 \<and> 2 \<le> unat (rd32 xx_file 10) \<and>
   read (Some xx_file) (fresh_BMP 0, []) =
     signature_ignored (rd16 xx_file 0) []
       (read (Some (0x42 # 0x4D # drop 2 xx_file)) (fresh_BMP 0, []))"
proof -
  have h: "14 \<le> length xx_file" "rd16 xx_file 0 \<noteq> 0x4D42" "2 \<le> unat (rd32 xx_file 10)"
    by (simp_all add: xx_file_def rd16_def rd32_def)
  from read_bad_signature [OF h] h show ?thesis by blast
qed

text \<open>
  C3 as stated fails: the file \<open>xx_file\<close> has the signature \<^verbatim>\<open>XX\<close> and the constructor
  returns its image, with one diagnostic.
\<close>

theorem read_accepts_bad_signature:
  "BMP_open (Some xx_file) 0 =
     Inr (\<lparr>file_header = \<lparr>file_type = 0x5858, file_size = 58, reserved1 = 0, reserved2 = 0,
                           offset_data = 54\<rparr>,
           bmp_info_header = \<lparr>header_size = 40, width = 1, height = 1, planes = 1, bit_count = 24,
             compression = 0, size_image = 0, x_pixels_per_meter = 0, y_pixels_per_meter = 0,
             colors_used = 0, colors_important = 0\<rparr>,
           bmp_color_header = default_color_header, data = [1, 2, 3], channels = 3,
           row_stride = 3\<rparr>,
          [UnrecognizedFormat])"
  by code_simp

section \<open>Headers as bytes\<close>



lemma length_le [simp]: "length (le16 v) = 2" "length (le32 w) = 4"
  by (simp_all add: le16_def le32_def)









lemma length_header_bytes [simp]:
  "length (info_header_bytes ih) = 40"
  "length (unused cc) = 16 \<Longrightarrow> length (color_header_bytes cc) = 84"
proof -
  show "length (info_header_bytes ih) = 40" by (simp add: info_header_bytes_def)
  have "length (concat (map le32 us)) = 4 * length us" for us
    by (induction us) simp_all
  then show "length (unused cc) = 16 \<Longrightarrow> length (color_header_bytes cc) = 84"
    by (simp add: color_header_bytes_def)
qed

section \<open>Rows and their padding\<close>













section \<open>Reading what was written\<close>













end
